theory Spec2Isabelle
  imports Main "HOL-Library.Word"
begin

unbundle bit_operations_syntax

section \<open>Linked list manager (gui\_linkedlist.c)\<close>

text \<open>
  Pointers are addresses (natural numbers); the null pointer is \<open>None\<close>.
  Memory is a function from addresses to structures. Every structure that can be linked
  starts with a \<open>gui_linkedlist_t\<close>; the generic list functions only touch that
  part, which is what the record scheme expresses (the C code casts to
  \<open>gui_linkedlist_t *\<close>). The field \<open>next\<close> of the source is called \<open>nxt\<close>
  and \<open>last\<close> is called \<open>last'\<close>.
\<close>

type_synonym ptr = "nat option"

record gui_linkedlist_t =
  prev :: ptr
  nxt :: ptr

record gui_linkedlistroot_t =
  first :: ptr
  last' :: ptr

type_synonym 'a llheap = "nat \<Rightarrow> 'a gui_linkedlist_t_scheme"

definition gui_linkedlist_add_gen ::
  "gui_linkedlistroot_t \<Rightarrow> 'a llheap \<Rightarrow> nat \<Rightarrow> gui_linkedlistroot_t \<times> 'a llheap" where
  "gui_linkedlist_add_gen root hp element =
    (case last' root of
       None \<Rightarrow>
         (root\<lparr>first := Some element, last' := Some element\<rparr>,
          hp(element := (hp element)\<lparr>prev := None, nxt := None\<rparr>))
     | Some l \<Rightarrow>
         if first root = None then
           (root\<lparr>first := Some element, last' := Some element\<rparr>,
            hp(element := (hp element)\<lparr>prev := None, nxt := None\<rparr>))
         else
           let hp1 = hp(element := (hp element)\<lparr>nxt := None, prev := last' root\<rparr>);
               hp2 = hp1(l := (hp1 l)\<lparr>nxt := Some element\<rparr>)
           in (root\<lparr>last' := Some element\<rparr>, hp2))"

definition gui_linkedlist_remove_gen ::
  "gui_linkedlistroot_t \<Rightarrow> 'a llheap \<Rightarrow> ptr \<Rightarrow> ptr \<times> gui_linkedlistroot_t \<times> 'a llheap" where
  "gui_linkedlist_remove_gen root hp element =
    (case element of
       None \<Rightarrow> (None, root, hp)
     | Some e \<Rightarrow>
         let p = prev (hp e);
             n = nxt (hp e);
             hp1 = (case p of None \<Rightarrow> hp | Some pa \<Rightarrow> hp(pa := (hp pa)\<lparr>nxt := n\<rparr>));
             hp2 = (case n of None \<Rightarrow> hp1 | Some na \<Rightarrow> hp1(na := (hp1 na)\<lparr>prev := p\<rparr>));
             root1 = (if first root = Some e then root\<lparr>first := n\<rparr> else root);
             root2 = (if last' root1 = Some e then root1\<lparr>last' := p\<rparr> else root1);
             hp3 = hp2(e := (hp2 e)\<lparr>prev := None, nxt := None\<rparr>)
         in (Some e, root2, hp3))"

definition gui_linkedlist_getnext_gen ::
  "gui_linkedlistroot_t option \<Rightarrow> 'a llheap \<Rightarrow> ptr \<Rightarrow> ptr" where
  "gui_linkedlist_getnext_gen root hp element =
    (case element of
       None \<Rightarrow> (case root of Some r \<Rightarrow> first r | None \<Rightarrow> None)
     | Some e \<Rightarrow> nxt (hp e))"

definition gui_linkedlist_getprev_gen ::
  "gui_linkedlistroot_t option \<Rightarrow> 'a llheap \<Rightarrow> ptr \<Rightarrow> ptr" where
  "gui_linkedlist_getprev_gen root hp element =
    (case element of
       None \<Rightarrow> (case root of Some r \<Rightarrow> last' r | None \<Rightarrow> None)
     | Some e \<Rightarrow> prev (hp e))"

definition gui_linkedlist_movedown_gen ::
  "gui_linkedlistroot_t \<Rightarrow> 'a llheap \<Rightarrow> ptr \<Rightarrow> 8 word \<times> gui_linkedlistroot_t \<times> 'a llheap" where
  "gui_linkedlist_movedown_gen root hp element =
    (case element of
       None \<Rightarrow> (0, root, hp)
     | Some e \<Rightarrow>
         if element = last' root then (0, root, hp)
         else
           let Prev = prev (hp e);
               Next = nxt (hp e);
               NextNext = (case Next of None \<Rightarrow> None | Some n \<Rightarrow> nxt (hp n));
               hp1 = (case NextNext of Some nn \<Rightarrow> hp(nn := (hp nn)\<lparr>prev := Some e\<rparr>) | None \<Rightarrow> hp);
               root1 = (case NextNext of Some nn \<Rightarrow> root | None \<Rightarrow> root\<lparr>last' := Some e\<rparr>);
               hp2 = (case Next of Some n \<Rightarrow> hp1(n := (hp1 n)\<lparr>nxt := Some e, prev := Prev\<rparr>)
                      | None \<Rightarrow> hp1);
               hp3 = hp2(e := (hp2 e)\<lparr>nxt := NextNext, prev := Next\<rparr>);
               hp4 = (case Prev of Some p \<Rightarrow> hp3(p := (hp3 p)\<lparr>nxt := Next\<rparr>) | None \<Rightarrow> hp3);
               root2 = (if first root1 = Some e then root1\<lparr>first := Next\<rparr> else root1)
           in (1, root2, hp4))"

definition gui_linkedlist_moveup_gen ::
  "gui_linkedlistroot_t \<Rightarrow> 'a llheap \<Rightarrow> ptr \<Rightarrow> 8 word \<times> gui_linkedlistroot_t \<times> 'a llheap" where
  "gui_linkedlist_moveup_gen root hp element =
    (case element of
       None \<Rightarrow> (0, root, hp)
     | Some e \<Rightarrow>
         if element = first root then (0, root, hp)
         else
           let Prev = prev (hp e);
               Next = nxt (hp e);
               PrevPrev = (case Prev of None \<Rightarrow> None | Some p \<Rightarrow> prev (hp p));
               hp1 = (case PrevPrev of Some pp \<Rightarrow> hp(pp := (hp pp)\<lparr>nxt := Some e\<rparr>) | None \<Rightarrow> hp);
               root1 = (case PrevPrev of Some pp \<Rightarrow> root | None \<Rightarrow> root\<lparr>first := Some e\<rparr>);
               hp2 = (case Prev of Some p \<Rightarrow> hp1(p := (hp1 p)\<lparr>prev := Some e, nxt := Next\<rparr>)
                      | None \<Rightarrow> hp1);
               hp3 = hp2(e := (hp2 e)\<lparr>prev := PrevPrev, nxt := Prev\<rparr>);
               hp4 = (case Next of Some n \<Rightarrow> hp3(n := (hp3 n)\<lparr>prev := Prev\<rparr>) | None \<Rightarrow> hp3);
               root2 = (if last' root1 = Some e then root1\<lparr>last' := Prev\<rparr> else root1)
           in (1, root2, hp4))"

subsection \<open>Abstraction of a sibling list\<close>

text \<open>
  \<open>dll root hp xs\<close>: the root and the \<open>prev\<close>/\<open>nxt\<close> fields in memory
  \<open>hp\<close> represent the list of addresses \<open>xs\<close>: the first element has no
  predecessor, the last has no successor, and neighbours point at each other.
\<close>

definition dll :: "gui_linkedlistroot_t \<Rightarrow> 'a llheap \<Rightarrow> nat list \<Rightarrow> bool" where
  "dll root hp xs \<longleftrightarrow>
     distinct xs \<and>
     (xs = [] \<longrightarrow> first root = None \<and> last' root = None) \<and>
     (xs \<noteq> [] \<longrightarrow> first root = Some (xs ! 0) \<and> last' root = Some (xs ! (length xs - Suc 0)) \<and>
        prev (hp (xs ! 0)) = None \<and> nxt (hp (xs ! (length xs - Suc 0))) = None) \<and>
     (\<forall>i. Suc i < length xs \<longrightarrow>
        nxt (hp (xs ! i)) = Some (xs ! Suc i) \<and> prev (hp (xs ! Suc i)) = Some (xs ! i))"



subsection \<open>Sequences of generic list operations\<close>

text \<open>
  A call of one of the four generic functions on one sibling list. \<open>Add\<close> needs a
  valid element (the C code dereferences it); the other three accept the null pointer
  and then do nothing.
\<close>

datatype ll_op = Add nat | Remove ptr | MoveUp ptr | MoveDown ptr

fun ll_step :: "ll_op \<Rightarrow> gui_linkedlistroot_t \<times> 'a llheap \<Rightarrow> gui_linkedlistroot_t \<times> 'a llheap" where
  "ll_step (Add e) (r, hp) = gui_linkedlist_add_gen r hp e"
| "ll_step (Remove e) (r, hp) = snd (gui_linkedlist_remove_gen r hp e)"
| "ll_step (MoveUp e) (r, hp) = snd (gui_linkedlist_moveup_gen r hp e)"
| "ll_step (MoveDown e) (r, hp) = snd (gui_linkedlist_movedown_gen r hp e)"

fun ll_run :: "ll_op list \<Rightarrow> gui_linkedlistroot_t \<times> 'a llheap \<Rightarrow> gui_linkedlistroot_t \<times> 'a llheap" where
  "ll_run [] s = s"
| "ll_run (c # cs) s = ll_run cs (ll_step c s)"

text \<open>
  The caller's side of the contract: an element is added only while it is not linked,
  and removed or moved only while it is linked. \<open>ll_members c S\<close> is the set of linked
  elements after call \<open>c\<close> when it was \<open>S\<close> before.
\<close>

fun ll_members :: "ll_op \<Rightarrow> nat set \<Rightarrow> nat set" where
  "ll_members (Add e) S = insert e S"
| "ll_members (Remove (Some e)) S = S - {e}"
| "ll_members c S = S"

fun ll_ok :: "ll_op \<Rightarrow> nat set \<Rightarrow> bool" where
  "ll_ok (Add e) S = (e \<notin> S)"
| "ll_ok (Remove None) S = True"
| "ll_ok (Remove (Some e)) S = (e \<in> S)"
| "ll_ok (MoveUp None) S = True"
| "ll_ok (MoveUp (Some e)) S = (e \<in> S)"
| "ll_ok (MoveDown None) S = True"
| "ll_ok (MoveDown (Some e)) S = (e \<in> S)"

fun ll_wf :: "ll_op list \<Rightarrow> nat set \<Rightarrow> bool" where
  "ll_wf [] S = True"
| "ll_wf (c # cs) S = (ll_ok c S \<and> ll_wf cs (ll_members c S))"

text \<open>Number of elements added, and number of elements removed, by a sequence of calls.\<close>

fun n_added :: "ll_op list \<Rightarrow> nat" where
  "n_added [] = 0"
| "n_added (Add e # cs) = Suc (n_added cs)"
| "n_added (c # cs) = n_added cs"

fun n_removed :: "ll_op list \<Rightarrow> nat" where
  "n_removed [] = 0"
| "n_removed (Remove (Some e) # cs) = Suc (n_removed cs)"
| "n_removed (c # cs) = n_removed cs"

text \<open>Walking forward from \<open>p\<close> via \<open>nxt\<close>, for at most \<open>n\<close> nodes: the nodes visited.\<close>

fun walk :: "'a llheap \<Rightarrow> nat \<Rightarrow> ptr \<Rightarrow> nat list" where
  "walk hp 0 p = []"
| "walk hp (Suc n) None = []"
| "walk hp (Suc n) (Some a) = a # walk hp n (nxt (hp a))"

definition empty_root :: gui_linkedlistroot_t where
  "empty_root = \<lparr>first = None, last' = None\<rparr>"


section \<open>Widgets\<close>

type_synonym u8 = "8 word"
type_synonym u16 = "16 word"
type_synonym u32 = "32 word"

subsection \<open>Flags (gui\_defs.h)\<close>

definition GUI_FLAG_REDRAW :: u32 where "GUI_FLAG_REDRAW = 0x00000001"
definition GUI_FLAG_DYNAMICTEXTALLOC :: u32 where "GUI_FLAG_DYNAMICTEXTALLOC = 0x00000004"
definition GUI_FLAG_ACTIVE :: u32 where "GUI_FLAG_ACTIVE = 0x00000008"
definition GUI_FLAG_FOCUS :: u32 where "GUI_FLAG_FOCUS = 0x00000010"
definition GUI_FLAG_WIDTH_PERCENT :: u32 where "GUI_FLAG_WIDTH_PERCENT = 0x00000100"
definition GUI_FLAG_HEIGHT_PERCENT :: u32 where "GUI_FLAG_HEIGHT_PERCENT = 0x00000200"
definition GUI_FLAG_EXPANDED :: u32 where "GUI_FLAG_EXPANDED = 0x00001000"
definition GUI_FLAG_XPOS_PERCENT :: u32 where "GUI_FLAG_XPOS_PERCENT = 0x00010000"
definition GUI_FLAG_YPOS_PERCENT :: u32 where "GUI_FLAG_YPOS_PERCENT = 0x00020000"
definition GUI_FLAG_REMOVE :: u32 where "GUI_FLAG_REMOVE = 0x00002000"
definition GUI_FLAG_IGNORE_INVALIDATE :: u32 where "GUI_FLAG_IGNORE_INVALIDATE = 0x00004000"
definition GUI_FLAG_TOUCH_MOVE :: u32 where "GUI_FLAG_TOUCH_MOVE = 0x00008000"
definition GUI_FLAG_WIDGET_ALLOW_CHILDREN :: u32 where "GUI_FLAG_WIDGET_ALLOW_CHILDREN = 0x00040000"
definition GUI_FLAG_WIDGET_DIALOG_BASE :: u32 where "GUI_FLAG_WIDGET_DIALOG_BASE = 0x00080000"
definition GUI_FLAG_WIDGET_INVALIDATE_PARENT :: u32 where "GUI_FLAG_WIDGET_INVALIDATE_PARENT = 0x00100000"

named_theorems gui_flag_defs

declare GUI_FLAG_REDRAW_def [gui_flag_defs]
declare GUI_FLAG_DYNAMICTEXTALLOC_def [gui_flag_defs]
declare GUI_FLAG_ACTIVE_def [gui_flag_defs]
declare GUI_FLAG_FOCUS_def [gui_flag_defs]
declare GUI_FLAG_REMOVE_def [gui_flag_defs]
declare GUI_FLAG_WIDTH_PERCENT_def [gui_flag_defs]
declare GUI_FLAG_HEIGHT_PERCENT_def [gui_flag_defs]
declare GUI_FLAG_EXPANDED_def [gui_flag_defs]
declare GUI_FLAG_XPOS_PERCENT_def [gui_flag_defs]
declare GUI_FLAG_YPOS_PERCENT_def [gui_flag_defs]
declare GUI_FLAG_IGNORE_INVALIDATE_def [gui_flag_defs]
declare GUI_FLAG_TOUCH_MOVE_def [gui_flag_defs]
declare GUI_FLAG_WIDGET_ALLOW_CHILDREN_def [gui_flag_defs]
declare GUI_FLAG_WIDGET_DIALOG_BASE_def [gui_flag_defs]
declare GUI_FLAG_WIDGET_INVALIDATE_PARENT_def [gui_flag_defs]

subsection \<open>Structures\<close>

text \<open>
  \<open>gui_widget_t\<close> is the immutable type descriptor shared by all widgets of one kind
  (fields \<open>size\<close> and \<open>flags\<close> of the source, here \<open>w_size\<close> and \<open>w_flags\<close>; the
  name, the colour table and the callback pointer play no role in the tree engine).

  \<open>gui_handle\<close> extends \<open>gui_linkedlist_t\<close>, which is its first member in C. A widget
  that allows children is allocated as a \<open>gui_handle_root_t\<close>, a \<open>gui_handle\<close>
  followed by the root of its children list; the model keeps the field \<open>root_list\<close>
  in every cell. \<open>h_text\<close>, \<open>timer\<close> and \<open>colors\<close> are the addresses of the
  blocks they point to, \<open>font\<close> the address of the font. Position and size are kept
  as the pixel values the setters receive (\<open>pos_x\<close>, \<open>pos_y\<close> for the fields
  \<open>x\<close>, \<open>y\<close>); padding and scroll offsets are left out: the only thing the tree
  engine asks of the geometry is the visible rectangle of a widget, which the functions
  below take as a parameter.
\<close>

record gui_widget_t =
  w_size :: u16
  w_flags :: u32

record gui_handle = gui_linkedlist_t +
  h_id :: u32
  widget :: gui_widget_t
  parent :: ptr
  pos_x :: int
  pos_y :: int
  width :: int
  height :: int
  zindex :: int
  transparency :: u8
  flags :: u32
  font :: ptr
  h_text :: ptr
  timer :: ptr
  colors :: ptr
  root_list :: gui_linkedlistroot_t

record gui_display_t =
  X1 :: int
  Y1 :: int
  X2 :: int
  Y2 :: int

text \<open>
  Control codes passed to a widget callback (\<open>gui_wc_t\<close>): those the engine sends, and
  \<open>GUI_WC_CanRemove\<close>, which gui\_defs.h documents as the query "check if widget can be
  removed" (result 1 = remove, 0 = do not remove), next to \<open>GUI_WC_Remove\<close>, documented
  as the "notification before widget delete will actually happen" (no result).
\<close>

datatype gui_wc_t =
  GUI_WC_PreInit | GUI_WC_ExcludeLinkedList | GUI_WC_Init | GUI_WC_ChildWidgetCreated
| GUI_WC_CanRemove | GUI_WC_Remove | GUI_WC_FocusIn | GUI_WC_FocusOut | GUI_WC_ActiveIn | GUI_WC_ActiveOut
| GUI_WC_TextChanged | GUI_WC_OnDismiss

datatype gui_mbox_msg_t =
  GUI_SYS_MBOX_TYPE_REMOVE | GUI_SYS_MBOX_TYPE_INVALIDATE | GUI_SYS_MBOX_TYPE_WIDGET_CREATED

text \<open>
  The entry of the dialog registry (\<open>dissmissed_dialog_list_t\<close> of gui\_dialog.c). The
  semaphore is \<open>None\<close> while it is not valid, \<open>Some False\<close> while locked and
  \<open>Some True\<close> once released.
\<close>

record dissmissed_dialog_list_t = gui_linkedlist_t +
  d_id :: u32
  d_h :: ptr
  status :: int
  sem :: "bool option"
  ib :: u8

text \<open>
  The global \<open>GUI\<close> object together with the memory it points into. \<open>heap\<close> is the
  widget memory and \<open>mem\<close> the set of widget blocks currently allocated; \<open>dheap\<close> and
  \<open>dmem\<close> are the same for the entries of the dialog registry \<open>ddlist\<close>. \<open>freed\<close>
  lists the text buffers and colour arrays handed to \<open>GUI_MEMFREE\<close>, in order, and
  \<open>timers_removed\<close> the timers handed to \<open>gui_timer_remove__\<close>. \<open>lvl\<close> is the
  static nesting counter of \<open>remove_widgets\<close>.
  \<open>events\<close> records every callback invocation (widget, control code, integer parameter)
  and \<open>mbox\<close> every message posted to the operating system mailbox. \<open>desktop\<close> is
  what \<open>gui_window_getdesktop()\<close> returns. \<open>GUI_CFG_OS\<close> and
  \<open>GUI_CFG_USE_TRANSPARENCY\<close> are the two compile time switches the engine tests.
\<close>

record gui_t =
  heap :: "nat \<Rightarrow> gui_handle"
  mem :: "nat set"
  Root :: gui_linkedlistroot_t
  FocusedWidget :: ptr
  FocusedWidgetPrev :: ptr
  ActiveWidget :: ptr
  ActiveWidgetPrev :: ptr
  WindowActive :: ptr
  Flags :: u32
  Display :: gui_display_t
  desktop :: ptr
  ddlist :: gui_linkedlistroot_t
  dheap :: "nat \<Rightarrow> dissmissed_dialog_list_t"
  dmem :: "nat set"
  freed :: "nat list"
  timers_removed :: "nat list"
  events :: "(nat \<times> gui_wc_t \<times> int) list"
  mbox :: "gui_mbox_msg_t list"
  lvl :: u32
  GUI_CFG_OS :: bool
  GUI_CFG_USE_TRANSPARENCY :: bool

subsection \<open>Accessors of gui\_widget.h\<close>

text \<open>
  Modelled from the spec: the accessor macros of gui\_private.h and gui\_widget.h are not
  among the sources. The spec describes the state flags as a bit set on the node
  (redraw-pending, focused, being-removed, ignore-invalidate, dialog-base, ...) and the
  capability flags (allows-children, is-dialog-base) as part of the type descriptor; a
  widget is a dialog base when its type says so or when \<open>gui_dialog_create\<close> has set the
  flag on the node itself.
\<close>

definition guii_widget_getflag :: "gui_t \<Rightarrow> nat \<Rightarrow> u32 \<Rightarrow> u32" where
  "guii_widget_getflag s h flag = flags (heap s h) AND flag"

definition guii_widget_getcoreflag :: "gui_t \<Rightarrow> nat \<Rightarrow> u32 \<Rightarrow> u32" where
  "guii_widget_getcoreflag s h flag = w_flags (widget (heap s h)) AND flag"

definition guii_widget_setflag :: "gui_t \<Rightarrow> nat \<Rightarrow> u32 \<Rightarrow> gui_t" where
  "guii_widget_setflag s h flag =
     s\<lparr>heap := (heap s)(h := (heap s h)\<lparr>flags := flags (heap s h) OR flag\<rparr>)\<rparr>"

definition guii_widget_clrflag :: "gui_t \<Rightarrow> nat \<Rightarrow> u32 \<Rightarrow> gui_t" where
  "guii_widget_clrflag s h flag =
     s\<lparr>heap := (heap s)(h := (heap s h)\<lparr>flags := flags (heap s h) AND NOT flag\<rparr>)\<rparr>"

definition guii_widget_allowchildren :: "gui_t \<Rightarrow> nat \<Rightarrow> bool" where
  "guii_widget_allowchildren s h \<longleftrightarrow>
     guii_widget_getcoreflag s h GUI_FLAG_WIDGET_ALLOW_CHILDREN \<noteq> 0"

definition guii_widget_isdialogbase :: "gui_t \<Rightarrow> nat \<Rightarrow> bool" where
  "guii_widget_isdialogbase s h \<longleftrightarrow>
     guii_widget_getcoreflag s h GUI_FLAG_WIDGET_DIALOG_BASE \<noteq> 0 \<or>
     guii_widget_getflag s h GUI_FLAG_WIDGET_DIALOG_BASE \<noteq> 0"

definition guii_widget_hasparent :: "gui_t \<Rightarrow> nat \<Rightarrow> bool" where
  "guii_widget_hasparent s h \<longleftrightarrow> parent (heap s h) \<noteq> None"

subsection \<open>Sibling lists of widgets (gui\_linkedlist.c)\<close>

text \<open>
  The generic functions get a pointer to the list root, which is either \<open>GUI.root\<close> or
  the \<open>root_list\<close> member of the parent. \<open>with_list\<close> runs a generic function on
  the list a widget with parent pointer \<open>p\<close> belongs to and stores the root back.
\<close>

definition with_list ::
  "(gui_linkedlistroot_t \<Rightarrow> (nat \<Rightarrow> gui_handle) \<Rightarrow> 'r \<times> gui_linkedlistroot_t \<times> (nat \<Rightarrow> gui_handle))
   \<Rightarrow> gui_t \<Rightarrow> ptr \<Rightarrow> 'r \<times> gui_t" where
  "with_list f s p =
    (case p of
       Some pa \<Rightarrow>
         (case f (root_list (heap s pa)) (heap s) of
            (r, rt, hp) \<Rightarrow> (r, s\<lparr>heap := hp(pa := (hp pa)\<lparr>root_list := rt\<rparr>)\<rparr>))
     | None \<Rightarrow>
         (case f (Root s) (heap s) of
            (r, rt, hp) \<Rightarrow> (r, s\<lparr>heap := hp, Root := rt\<rparr>)))"

definition gui_linkedlist_widgetremove :: "gui_t \<Rightarrow> nat \<Rightarrow> gui_t" where
  "gui_linkedlist_widgetremove s h =
     snd (with_list (\<lambda>rt hp. gui_linkedlist_remove_gen rt hp (Some h)) s (parent (heap s h)))"

definition gui_linkedlist_widgetmoveup :: "gui_t \<Rightarrow> nat \<Rightarrow> u8 \<times> gui_t" where
  "gui_linkedlist_widgetmoveup s h =
     with_list (\<lambda>rt hp. gui_linkedlist_moveup_gen rt hp (Some h)) s (parent (heap s h))"

definition gui_linkedlist_widgetmovedown :: "gui_t \<Rightarrow> nat \<Rightarrow> u8 \<times> gui_t" where
  "gui_linkedlist_widgetmovedown s h =
     with_list (\<lambda>rt hp. gui_linkedlist_movedown_gen rt hp (Some h)) s (parent (heap s h))"

definition gui_linkedlist_widgetgetnext :: "gui_t \<Rightarrow> ptr \<Rightarrow> ptr \<Rightarrow> ptr" where
  "gui_linkedlist_widgetgetnext s parent_h h =
    (case h of
       None \<Rightarrow> (case parent_h of Some p \<Rightarrow> first (root_list (heap s p)) | None \<Rightarrow> first (Root s))
     | Some a \<Rightarrow> nxt (heap s a))"

text \<open>
  The loops of \<open>gui_linkedlist_widgetmovetobottom\<close> and
  \<open>gui_linkedlist_widgetmovetotop\<close>. The first argument bounds the number of
  iterations; \<open>None\<close> means the loop has not finished within the bound. \<open>cnt\<close> is the
  32 bit counter of the source.
\<close>

fun movetobottom_loop :: "nat \<Rightarrow> gui_t \<Rightarrow> nat \<Rightarrow> u32 \<Rightarrow> (u32 \<times> gui_t) option" where
  "movetobottom_loop 0 s h cnt = None"
| "movetobottom_loop (Suc n) s h cnt =
    (case nxt (heap s h) of
       None \<Rightarrow> Some (cnt, s)
     | Some nx \<Rightarrow>
         if guii_widget_isdialogbase s h then
           (case gui_linkedlist_widgetmovedown s h of
              (r, s') \<Rightarrow> if r = 0 then Some (cnt, s') else movetobottom_loop n s' h (cnt + 1))
         else if guii_widget_allowchildren s h then
           (if \<not> guii_widget_isdialogbase s nx then
              (if zindex (heap s h) \<ge> zindex (heap s nx) then
                 (case gui_linkedlist_widgetmovedown s h of
                    (r, s') \<Rightarrow> if r = 0 then Some (cnt, s') else movetobottom_loop n s' h (cnt + 1))
               else Some (cnt, s))
            else Some (cnt, s))
         else
           (if \<not> guii_widget_allowchildren s nx then
              (if zindex (heap s h) \<ge> zindex (heap s nx) then
                 (case gui_linkedlist_widgetmovedown s h of
                    (r, s') \<Rightarrow> if r = 0 then Some (cnt, s') else movetobottom_loop n s' h (cnt + 1))
               else Some (cnt, s))
            else Some (cnt, s)))"

definition gui_linkedlist_widgetmovetobottom :: "nat \<Rightarrow> gui_t \<Rightarrow> nat \<Rightarrow> (u8 \<times> gui_t) option" where
  "gui_linkedlist_widgetmovetobottom fuel s h =
    (if nxt (heap s h) = None then Some (0, s)
     else map_option (\<lambda>(cnt, s'). (ucast cnt, s')) (movetobottom_loop fuel s h 0))"

fun movetotop_loop :: "nat \<Rightarrow> gui_t \<Rightarrow> nat \<Rightarrow> u32 \<Rightarrow> (u32 \<times> gui_t) option" where
  "movetotop_loop 0 s h cnt = None"
| "movetotop_loop (Suc n) s h cnt =
    (case prev (heap s h) of
       None \<Rightarrow> Some (cnt, s)
     | Some pv \<Rightarrow>
         if guii_widget_isdialogbase s h then
           (if guii_widget_isdialogbase s pv then
              (case gui_linkedlist_widgetmoveup s h of
                 (r, s') \<Rightarrow> if r = 0 then Some (cnt, s') else movetotop_loop n s' h (cnt + 1))
            else Some (cnt, s))
         else if guii_widget_allowchildren s h then
           (if guii_widget_allowchildren s pv then
              (if zindex (heap s h) \<le> zindex (heap s pv) then
                 (case gui_linkedlist_widgetmoveup s h of
                    (r, s') \<Rightarrow> if r = 0 then Some (cnt, s') else movetotop_loop n s' h (cnt + 1))
               else Some (cnt, s))
            else Some (cnt, s))
         else
           (if zindex (heap s h) \<le> zindex (heap s pv) then
              (case gui_linkedlist_widgetmoveup s h of
                 (r, s') \<Rightarrow> if r = 0 then Some (cnt, s') else movetotop_loop n s' h (cnt + 1))
            else Some (cnt, s)))"

text \<open>
  In \<open>gui_linkedlist_widgetmovetotop\<close> the counter is declared without an initial value
  (\<open>uint32_t cnt;\<close>): what it holds when the loop starts is indeterminate, and the model
  takes it as the argument \<open>cnt0\<close>.
\<close>

definition gui_linkedlist_widgetmovetotop :: "nat \<Rightarrow> u32 \<Rightarrow> gui_t \<Rightarrow> nat \<Rightarrow> (u8 \<times> gui_t) option" where
  "gui_linkedlist_widgetmovetotop fuel cnt0 s h =
    (if prev (heap s h) = None then Some (0, s)
     else map_option (\<lambda>(cnt, s'). (ucast cnt, s')) (movetotop_loop fuel s h cnt0))"

definition gui_linkedlist_widgetadd :: "nat \<Rightarrow> u32 \<Rightarrow> gui_t \<Rightarrow> ptr \<Rightarrow> nat \<Rightarrow> gui_t option" where
  "gui_linkedlist_widgetadd fuel cnt0 s root_h h =
    (let s1 = snd (with_list (\<lambda>rt hp. case gui_linkedlist_add_gen rt hp h of (rt', hp') \<Rightarrow> ((), rt', hp'))
                     s root_h)
     in case gui_linkedlist_widgetmovetotop fuel cnt0 s1 h of
          None \<Rightarrow> None
        | Some (r1, s2) \<Rightarrow>
            (case gui_linkedlist_widgetmovetobottom fuel s2 h of
               None \<Rightarrow> None
             | Some (r2, s3) \<Rightarrow> Some s3))"


section \<open>Widget tree engine (gui\_widget.c)\<close>

text \<open>
  What lies outside the engine is a parameter. \<open>callback e h ctrl r\<close> is what the
  callback of widget \<open>h\<close> answers to control code \<open>ctrl\<close> when the result cell holds
  \<open>r\<close>: the value it returns (non-zero when the command was processed) and the new
  content of the result cell. \<open>visible e h\<close> is the rectangle that
  \<open>get_lcd_abs_position_and_visible_width_height\<close> computes for \<open>h\<close>; it depends
  on geometry only and is taken as fixed during a call. \<open>sizeof_gui_handle\<close> and
  \<open>sizeof_gui_handle_root\<close> are the sizes of the two node structures,
  \<open>GUI_FLAG_WIDGET_CREATE_PARENT_DESKTOP\<close> the creation flag of that name (its value
  is not among the sources) and \<open>default_font\<close> the font of \<open>widget_default\<close>.
\<close>

record gui_env =
  callback :: "nat \<Rightarrow> gui_wc_t \<Rightarrow> u8 \<Rightarrow> u8 \<times> u8"
  visible :: "nat \<Rightarrow> gui_display_t"
  sizeof_gui_handle :: nat
  sizeof_gui_handle_root :: nat
  GUI_FLAG_WIDGET_CREATE_PARENT_DESKTOP :: u16
  default_font :: ptr

text \<open>
  Modelled from the spec: \<open>guii_widget_callback\<close> (the dispatch macro is not among the
  sources) invokes the single callback of the node with a control code, an input
  parameter and a result cell. The invocation is recorded in \<open>events\<close>.
\<close>

definition guii_widget_callback ::
  "gui_env \<Rightarrow> gui_t \<Rightarrow> nat \<Rightarrow> gui_wc_t \<Rightarrow> int \<Rightarrow> u8 \<Rightarrow> (u8 \<times> u8) \<times> gui_t" where
  "guii_widget_callback e s h ctrl param result =
     (callback e h ctrl result, s\<lparr>events := events s @ [(h, ctrl, param)]\<rparr>)"

text \<open>
  Modelled from the spec: a widget is transparent when its transparency level is below
  the maximum (fully opaque, \<open>0xFF\<close>); it is the last of its list when nothing follows
  it; two rectangles match when they overlap, that is when neither lies entirely to the
  left of, to the right of, above or below the other; a widget is focused when it carries
  the focus flag.
\<close>

definition guii_widget_istransparent :: "gui_t \<Rightarrow> nat \<Rightarrow> bool" where
  "guii_widget_istransparent s h \<longleftrightarrow> transparency (heap s h) < 0xFF"

definition gui_linkedlist_iswidgetlast :: "gui_t \<Rightarrow> ptr \<Rightarrow> bool" where
  "gui_linkedlist_iswidgetlast s h = (case h of None \<Rightarrow> True | Some a \<Rightarrow> nxt (heap s a) = None)"

definition GUI_RECT_MATCH :: "gui_display_t \<Rightarrow> gui_display_t \<Rightarrow> bool" where
  "GUI_RECT_MATCH r1 r2 \<longleftrightarrow>
     \<not> (X1 r1 > X2 r2 \<or> Y1 r1 > Y2 r2 \<or> X1 r2 > X2 r1 \<or> Y1 r2 > Y2 r1)"

definition guii_widget_isfocused :: "gui_t \<Rightarrow> nat \<Rightarrow> bool" where
  "guii_widget_isfocused s h \<longleftrightarrow> guii_widget_getflag s h GUI_FLAG_FOCUS \<noteq> 0"

definition mbox_putnow :: "gui_t \<Rightarrow> gui_mbox_msg_t \<Rightarrow> gui_t" where
  "mbox_putnow s m = s\<lparr>mbox := mbox s @ [m]\<rparr>"

subsection \<open>Invalidation\<close>

definition set_clipping_region :: "gui_env \<Rightarrow> gui_t \<Rightarrow> nat \<Rightarrow> gui_t" where
  "set_clipping_region e s h =
    (let r = visible e h;
         s1 = (if X1 (Display s) > X1 r then s\<lparr>Display := (Display s)\<lparr>X1 := X1 r\<rparr>\<rparr> else s);
         s2 = (if X2 (Display s1) < X2 r then s1\<lparr>Display := (Display s1)\<lparr>X2 := X2 r\<rparr>\<rparr> else s1);
         s3 = (if Y1 (Display s2) > Y1 r then s2\<lparr>Display := (Display s2)\<lparr>Y1 := Y1 r\<rparr>\<rparr> else s2);
         s4 = (if Y2 (Display s3) < Y2 r then s3\<lparr>Display := (Display s3)\<lparr>Y2 := Y2 r\<rparr>\<rparr> else s3)
     in s4)"

text \<open>
  The two nested loops of \<open>invalidate_widget\<close> over the later siblings. In all
  functions with a first argument of type \<open>nat\<close> that argument bounds the depth of
  calls and iterations, and \<open>None\<close> means that the bound was not enough.
\<close>

fun invalidate_inner :: "nat \<Rightarrow> gui_env \<Rightarrow> gui_t \<Rightarrow> gui_display_t \<Rightarrow> ptr \<Rightarrow> gui_t option" where
  "invalidate_inner 0 e s r1 h2 = None"
| "invalidate_inner (Suc n) e s r1 h2 =
    (case h2 of
       None \<Rightarrow> Some s
     | Some b \<Rightarrow>
         if guii_widget_getflag s b GUI_FLAG_REDRAW \<noteq> 0 \<or> \<not> GUI_RECT_MATCH r1 (visible e b)
         then invalidate_inner n e s r1 (gui_linkedlist_widgetgetnext s None (Some b))
         else let s' = guii_widget_setflag s b GUI_FLAG_REDRAW
              in invalidate_inner n e s' r1 (gui_linkedlist_widgetgetnext s' None (Some b)))"

fun invalidate_outer :: "nat \<Rightarrow> gui_env \<Rightarrow> gui_t \<Rightarrow> ptr \<Rightarrow> gui_t option" where
  "invalidate_outer 0 e s h1 = None"
| "invalidate_outer (Suc n) e s h1 =
    (case h1 of
       None \<Rightarrow> Some s
     | Some a \<Rightarrow>
         (case invalidate_inner n e s (visible e a) (gui_linkedlist_widgetgetnext s None (Some a)) of
            None \<Rightarrow> None
          | Some s' \<Rightarrow> invalidate_outer n e s' (gui_linkedlist_widgetgetnext s' None (Some a))))"

text \<open>
  \<open>invalidate_widget\<close>; a null handle fails the parameter check and 0 is returned.
  \<open>invalidate_parents\<close> is its last loop, over the ancestors, which invalidates the
  first transparent one and stops.
\<close>

fun invalidate_widget :: "nat \<Rightarrow> gui_env \<Rightarrow> gui_t \<Rightarrow> ptr \<Rightarrow> u8 \<Rightarrow> (u8 \<times> gui_t) option"
  and invalidate_parents :: "nat \<Rightarrow> gui_env \<Rightarrow> gui_t \<Rightarrow> ptr \<Rightarrow> gui_t option" where
  "invalidate_widget 0 e s hp setclipping = None"
| "invalidate_widget (Suc n) e s hp setclipping =
    (case hp of
       None \<Rightarrow> Some (0, s)
     | Some h \<Rightarrow>
         if guii_widget_getflag s h GUI_FLAG_IGNORE_INVALIDATE \<noteq> 0 then Some (0, s)
         else
           let s1 = guii_widget_setflag s h GUI_FLAG_REDRAW;
               s2 = s1\<lparr>Flags := Flags s1 OR GUI_FLAG_REDRAW\<rparr>;
               s3 = (if setclipping \<noteq> 0 then set_clipping_region e s2 h else s2)
           in case (if GUI_CFG_USE_TRANSPARENCY s3 \<and> guii_widget_istransparent s3 h
                    then invalidate_widget n e s3 (parent (heap s3 h)) 0 else Some (0, s3)) of
                None \<Rightarrow> None
              | Some (r4, s4) \<Rightarrow>
                  (case invalidate_outer n e s4 (Some h) of
                     None \<Rightarrow> None
                   | Some s5 \<Rightarrow>
                       (case (if parent (heap s5 h) \<noteq> None \<and>
                                 \<not> gui_linkedlist_iswidgetlast s5 (parent (heap s5 h))
                              then invalidate_widget n e s5 (parent (heap s5 h)) 0
                              else Some (0, s5)) of
                          None \<Rightarrow> None
                        | Some (r6, s6) \<Rightarrow>
                            (case (if GUI_CFG_USE_TRANSPARENCY s6
                                   then invalidate_parents n e s6 (parent (heap s6 h))
                                   else Some s6) of
                               None \<Rightarrow> None
                             | Some s7 \<Rightarrow> Some (1, s7)))))"
| "invalidate_parents 0 e s hp = None"
| "invalidate_parents (Suc n) e s hp =
    (case hp of
       None \<Rightarrow> Some s
     | Some h \<Rightarrow>
         if guii_widget_istransparent s h
         then map_option snd (invalidate_widget n e s (Some h) 0)
         else invalidate_parents n e s (parent (heap s h)))"

definition guii_widget_invalidate :: "nat \<Rightarrow> gui_env \<Rightarrow> gui_t \<Rightarrow> nat \<Rightarrow> (u8 \<times> gui_t) option" where
  "guii_widget_invalidate n e s h =
    (case invalidate_widget n e s (Some h) 1 of
       None \<Rightarrow> None
     | Some (ret, s1) \<Rightarrow>
         (case (if (guii_widget_getflag s1 h GUI_FLAG_WIDGET_INVALIDATE_PARENT \<noteq> 0 \<or>
                    guii_widget_getcoreflag s1 h GUI_FLAG_WIDGET_INVALIDATE_PARENT \<noteq> 0 \<or>
                    (GUI_CFG_USE_TRANSPARENCY s1 \<and> guii_widget_istransparent s1 h)) \<and>
                   parent (heap s1 h) \<noteq> None
                then invalidate_widget n e s1 (parent (heap s1 h)) 0
                else Some (0, s1)) of
            None \<Rightarrow> None
          | Some (r2, s2) \<Rightarrow>
              Some (ret, if GUI_CFG_OS s2 then mbox_putnow s2 GUI_SYS_MBOX_TYPE_INVALIDATE else s2)))"

definition guii_widget_invalidatewithparent :: "nat \<Rightarrow> gui_env \<Rightarrow> gui_t \<Rightarrow> nat \<Rightarrow> (u8 \<times> gui_t) option" where
  "guii_widget_invalidatewithparent n e s h =
    (case invalidate_widget n e s (Some h) 1 of
       None \<Rightarrow> None
     | Some (r1, s1) \<Rightarrow>
         (case (if parent (heap s1 h) \<noteq> None
                then invalidate_widget n e s1 (parent (heap s1 h)) 0
                else Some (0, s1)) of
            None \<Rightarrow> None
          | Some (r2, s2) \<Rightarrow> Some (1, s2)))"


subsection \<open>Focus and active widget\<close>

text \<open>
  A callback invoked with null parameter and result pointers gets 0 for both here; what
  it answers is ignored by the caller.
\<close>

definition notify :: "gui_env \<Rightarrow> gui_t \<Rightarrow> nat \<Rightarrow> gui_wc_t \<Rightarrow> gui_t" where
  "notify e s h ctrl = snd (guii_widget_callback e s h ctrl 0 0)"

text \<open>
  The do-while loop of \<open>gui_widget_focus_clear\<close>. When the parent chain ends before
  \<open>GUI.root.First\<close> is met the source dereferences a null pointer; the model has no
  result for that.
\<close>

fun focus_clear_loop :: "nat \<Rightarrow> gui_env \<Rightarrow> gui_t \<Rightarrow> gui_t option" where
  "focus_clear_loop 0 e s = None"
| "focus_clear_loop (Suc n) e s =
    (case FocusedWidget s of
       None \<Rightarrow> None
     | Some f \<Rightarrow>
         let s1 = notify e s f GUI_WC_FocusOut;
             s2 = guii_widget_clrflag s1 f GUI_FLAG_FOCUS
         in case guii_widget_invalidate n e s2 f of
              None \<Rightarrow> None
            | Some (r, s3) \<Rightarrow>
                let s4 = s3\<lparr>FocusedWidget := parent (heap s3 f)\<rparr>
                in if FocusedWidget s4 \<noteq> first (Root s4) then focus_clear_loop n e s4
                   else Some s4)"

definition gui_widget_focus_clear :: "nat \<Rightarrow> gui_env \<Rightarrow> gui_t \<Rightarrow> gui_t option" where
  "gui_widget_focus_clear n e s =
    (if FocusedWidget s \<noteq> None \<and> FocusedWidget s \<noteq> first (Root s) then
       (case focus_clear_loop n e (s\<lparr>FocusedWidgetPrev := FocusedWidget s\<rparr>) of
          None \<Rightarrow> None
        | Some s' \<Rightarrow> Some (s'\<lparr>FocusedWidget := None\<rparr>))
     else Some s)"

text \<open>
  \<open>get_common_parentwidget\<close>: \<open>common_inner\<close> looks for \<open>h1\<close> on the ancestor
  chain of \<open>h2\<close>, \<open>common_outer\<close> walks \<open>h1\<close> up. A null handle fails the
  parameter check and null is returned.
\<close>

fun common_inner :: "nat \<Rightarrow> gui_t \<Rightarrow> nat \<Rightarrow> ptr \<Rightarrow> ptr option" where
  "common_inner 0 s h1 tmp = None"
| "common_inner (Suc n) s h1 tmp =
    (case tmp of
       None \<Rightarrow> Some None
     | Some t \<Rightarrow> if h1 = t then Some (Some t) else common_inner n s h1 (parent (heap s t)))"

fun common_outer :: "nat \<Rightarrow> gui_t \<Rightarrow> ptr \<Rightarrow> ptr \<Rightarrow> ptr option" where
  "common_outer 0 s h1 h2 = None"
| "common_outer (Suc n) s h1 h2 =
    (case h1 of
       None \<Rightarrow> Some (first (Root s))
     | Some a \<Rightarrow>
         (case common_inner n s a h2 of
            None \<Rightarrow> None
          | Some (Some t) \<Rightarrow> Some (Some t)
          | Some None \<Rightarrow> common_outer n s (parent (heap s a)) h2))"

definition get_common_parentwidget :: "nat \<Rightarrow> gui_t \<Rightarrow> ptr \<Rightarrow> ptr \<Rightarrow> ptr option" where
  "get_common_parentwidget n s h1 h2 =
    (if h1 = None \<or> h2 = None then Some None else common_outer n s h1 h2)"

fun focus_out_loop :: "nat \<Rightarrow> gui_env \<Rightarrow> gui_t \<Rightarrow> ptr \<Rightarrow> gui_t option" where
  "focus_out_loop 0 e s common = None"
| "focus_out_loop (Suc n) e s common =
    (case FocusedWidget s of
       None \<Rightarrow> Some s
     | Some f \<Rightarrow>
         if common = None \<or> Some f = common then Some s
         else
           let s1 = guii_widget_clrflag s f GUI_FLAG_FOCUS;
               s2 = notify e s1 f GUI_WC_FocusOut
           in case guii_widget_invalidate n e s2 f of
                None \<Rightarrow> None
              | Some (r, s3) \<Rightarrow>
                  focus_out_loop n e (s3\<lparr>FocusedWidget := parent (heap s3 f)\<rparr>) common)"

fun focus_in_loop :: "nat \<Rightarrow> gui_env \<Rightarrow> gui_t \<Rightarrow> ptr \<Rightarrow> ptr \<Rightarrow> gui_t option" where
  "focus_in_loop 0 e s hp common = None"
| "focus_in_loop (Suc n) e s hp common =
    (case hp of
       None \<Rightarrow> Some s
     | Some h \<Rightarrow>
         if common = None \<or> Some h = common then Some s
         else
           let s1 = guii_widget_setflag s h GUI_FLAG_FOCUS;
               s2 = notify e s1 h GUI_WC_FocusIn
           in case guii_widget_invalidate n e s2 h of
                None \<Rightarrow> None
              | Some (r, s3) \<Rightarrow> focus_in_loop n e s3 (parent (heap s3 h)) common)"

definition gui_widget_focus_set :: "nat \<Rightarrow> gui_env \<Rightarrow> gui_t \<Rightarrow> ptr \<Rightarrow> gui_t option" where
  "gui_widget_focus_set n e s h =
    (if FocusedWidget s = h then Some s
     else
       case (if FocusedWidget s \<noteq> None then
               (case get_common_parentwidget n s (FocusedWidget s) h of
                  None \<Rightarrow> None
                | Some common \<Rightarrow>
                    if common \<noteq> None
                    then map_option (\<lambda>s'. (common, s')) (focus_out_loop n e s common)
                    else Some (common, s))
             else Some (first (Root s), s)) of
         None \<Rightarrow> None
       | Some (common, s1) \<Rightarrow> focus_in_loop n e (s1\<lparr>FocusedWidget := h\<rparr>) h common)"

definition gui_widget_active_clear :: "gui_env \<Rightarrow> gui_t \<Rightarrow> gui_t" where
  "gui_widget_active_clear e s =
    (case ActiveWidget s of
       None \<Rightarrow> s
     | Some a \<Rightarrow>
         let s1 = notify e s a GUI_WC_ActiveOut;
             s2 = guii_widget_clrflag s1 a (GUI_FLAG_ACTIVE OR GUI_FLAG_TOUCH_MOVE)
         in s2\<lparr>ActiveWidgetPrev := ActiveWidget s2, ActiveWidget := None\<rparr>)"

definition gui_widget_active_set :: "gui_env \<Rightarrow> gui_t \<Rightarrow> ptr \<Rightarrow> gui_t" where
  "gui_widget_active_set e s h =
    (let s1 = (gui_widget_active_clear e s)\<lparr>ActiveWidget := h\<rparr>
     in case h of
          None \<Rightarrow> s1
        | Some a \<Rightarrow> notify e (guii_widget_setflag s1 a GUI_FLAG_ACTIVE) a GUI_WC_ActiveIn)"

subsection \<open>Removal: the check and the mark\<close>

text \<open>
  \<open>can_remove_widget\<close> and its loop over the children. The callback is asked with the
  result cell preset to 1 and the command \<open>GUI_WC_Remove\<close>; removal is refused when
  the callback processes that command and clears the cell.
\<close>

fun can_remove_widget :: "nat \<Rightarrow> gui_env \<Rightarrow> gui_t \<Rightarrow> nat \<Rightarrow> (u8 \<times> gui_t) option"
  and can_remove_children :: "nat \<Rightarrow> gui_env \<Rightarrow> gui_t \<Rightarrow> ptr \<Rightarrow> (bool \<times> gui_t) option" where
  "can_remove_widget 0 e s h = None"
| "can_remove_widget (Suc n) e s h =
    (if Some h = desktop s then Some (0, s)
     else
       case guii_widget_callback e s h GUI_WC_Remove 0 1 of
         ((ret, res), s1) \<Rightarrow>
           let result = (if ret = 0 \<or> res \<noteq> 0 then 1 else res)
           in if result \<noteq> 0 \<and> guii_widget_allowchildren s1 h then
                (case can_remove_children n e s1 (gui_linkedlist_widgetgetnext s1 (Some h) None) of
                   None \<Rightarrow> None
                 | Some (ok, s2) \<Rightarrow> if ok then Some (result, s2) else Some (0, s2))
              else Some (result, s1))"
| "can_remove_children 0 e s hp = None"
| "can_remove_children (Suc n) e s hp =
    (case hp of
       None \<Rightarrow> Some (True, s)
     | Some h1 \<Rightarrow>
         (case can_remove_widget n e s h1 of
            None \<Rightarrow> None
          | Some (r, s1) \<Rightarrow>
              if r = 0 then Some (False, s1)
              else can_remove_children n e s1 (gui_linkedlist_widgetgetnext s1 None (Some h1))))"

definition guii_widget_remove :: "nat \<Rightarrow> gui_env \<Rightarrow> gui_t \<Rightarrow> nat \<Rightarrow> (u8 \<times> gui_t) option" where
  "guii_widget_remove n e s h =
    (case can_remove_widget n e s h of
       None \<Rightarrow> None
     | Some (r, s1) \<Rightarrow>
         if r \<noteq> 0 then
           let s2 = guii_widget_setflag s1 h GUI_FLAG_REMOVE;
               s3 = s2\<lparr>Flags := Flags s2 OR GUI_FLAG_REMOVE\<rparr>
           in case (if guii_widget_isfocused s3 h
                    then gui_widget_focus_set n e s3 (parent (heap s3 h)) else Some s3) of
                None \<Rightarrow> None
              | Some s4 \<Rightarrow>
                  Some (1, if GUI_CFG_OS s4 then mbox_putnow s4 GUI_SYS_MBOX_TYPE_REMOVE else s4)
         else Some (0, s1))"

subsection \<open>Removal: the sweep\<close>

definition guii_widget_freetextmemory :: "nat \<Rightarrow> gui_env \<Rightarrow> gui_t \<Rightarrow> nat \<Rightarrow> (u8 \<times> gui_t) option" where
  "guii_widget_freetextmemory n e s h =
    (case h_text (heap s h) of
       None \<Rightarrow> Some (1, s)
     | Some t \<Rightarrow>
         if guii_widget_getflag s h GUI_FLAG_DYNAMICTEXTALLOC \<noteq> 0 then
           let s1 = s\<lparr>freed := freed s @ [t]\<rparr>;
               s2 = s1\<lparr>heap := (heap s1)(h := (heap s1 h)\<lparr>h_text := None\<rparr>)\<rparr>;
               s3 = guii_widget_clrflag s2 h GUI_FLAG_DYNAMICTEXTALLOC
           in case guii_widget_invalidate n e s3 h of
                None \<Rightarrow> None
              | Some (r, s4) \<Rightarrow> Some (1, notify e s4 h GUI_WC_TextChanged)
         else Some (1, s))"

definition remove_widget :: "nat \<Rightarrow> gui_env \<Rightarrow> gui_t \<Rightarrow> nat \<Rightarrow> (u8 \<times> gui_t) option" where
  "remove_widget n e s h =
    (case (if FocusedWidget s = Some h then
             (case parent (heap s h) of
                Some p \<Rightarrow> Some (s\<lparr>FocusedWidget := Some p\<rparr>)
              | None \<Rightarrow> map_option (\<lambda>s'. s'\<lparr>FocusedWidget := None\<rparr>) (gui_widget_focus_clear n e s))
           else Some s) of
       None \<Rightarrow> None
     | Some s1 \<Rightarrow>
         let s2 = (if FocusedWidgetPrev s1 = Some h then s1\<lparr>FocusedWidgetPrev := None\<rparr> else s1);
             s3 = (if ActiveWidget s2 = Some h then s2\<lparr>ActiveWidget := None\<rparr> else s2);
             s4 = (if ActiveWidgetPrev s3 = Some h
                   then s3\<lparr>ActiveWidgetPrev := parent (heap s3 h)\<rparr> else s3);
             s5 = (if WindowActive s4 = Some h
                   then s4\<lparr>WindowActive := parent (heap s4 h)\<rparr> else s4)
         in case guii_widget_invalidatewithparent n e s5 h of
              None \<Rightarrow> None
            | Some (r6, s6) \<Rightarrow>
                (case guii_widget_freetextmemory n e s6 h of
                   None \<Rightarrow> None
                 | Some (r7, s7) \<Rightarrow>
                     let s8 = (case timer (heap s7 h) of
                                 None \<Rightarrow> s7
                               | Some t \<Rightarrow>
                                   s7\<lparr>timers_removed := timers_removed s7 @ [t],
                                       heap := (heap s7)(h := (heap s7 h)\<lparr>timer := None\<rparr>)\<rparr>);
                         s9 = (case colors (heap s8 h) of
                                 None \<Rightarrow> s8
                               | Some c \<Rightarrow>
                                   s8\<lparr>freed := freed s8 @ [c],
                                       heap := (heap s8)(h := (heap s8 h)\<lparr>colors := None\<rparr>)\<rparr>);
                         s10 = gui_linkedlist_widgetremove s9 h
                     in Some (1, s10\<lparr>mem := mem s10 - {h}\<rparr>)))"

text \<open>Step 1 of the sweep: set the remove flag on every direct child.\<close>

fun flag_children :: "nat \<Rightarrow> gui_t \<Rightarrow> ptr \<Rightarrow> gui_t option" where
  "flag_children 0 s tmp = None"
| "flag_children (Suc n) s tmp =
    (case tmp of
       None \<Rightarrow> Some s
     | Some t \<Rightarrow>
         let s' = guii_widget_setflag s t GUI_FLAG_REMOVE
         in flag_children n s' (gui_linkedlist_widgetgetnext s' None (Some t)))"

fun remove_widgets :: "nat \<Rightarrow> gui_env \<Rightarrow> gui_t \<Rightarrow> ptr \<Rightarrow> gui_t option"
  and remove_widgets_loop :: "nat \<Rightarrow> gui_env \<Rightarrow> gui_t \<Rightarrow> ptr \<Rightarrow> gui_t option" where
  "remove_widgets 0 e s parent_h = None"
| "remove_widgets (Suc n) e s parent_h =
    (case remove_widgets_loop n e s (gui_linkedlist_widgetgetnext s parent_h None) of
       None \<Rightarrow> None
     | Some s' \<Rightarrow>
         Some (if GUI_CFG_OS s' \<and> lvl s' = 0 then mbox_putnow s' GUI_SYS_MBOX_TYPE_REMOVE else s'))"
| "remove_widgets_loop 0 e s hp = None"
| "remove_widgets_loop (Suc n) e s hp =
    (case hp of
       None \<Rightarrow> Some s
     | Some h \<Rightarrow>
         if guii_widget_getflag s h GUI_FLAG_REMOVE \<noteq> 0 then
           let nx = gui_linkedlist_widgetgetnext s None (Some h)
           in case (if guii_widget_allowchildren s h then
                      (case flag_children n s (gui_linkedlist_widgetgetnext s (Some h) None) of
                         None \<Rightarrow> None
                       | Some s1 \<Rightarrow>
                           (case remove_widgets n e (s1\<lparr>lvl := lvl s1 + 1\<rparr>) (Some h) of
                              None \<Rightarrow> None
                            | Some s2 \<Rightarrow> Some (s2\<lparr>lvl := lvl s2 - 1\<rparr>)))
                    else Some s) of
                None \<Rightarrow> None
              | Some s3 \<Rightarrow>
                  (case remove_widget n e s3 h of
                     None \<Rightarrow> None
                   | Some (r, s4) \<Rightarrow> remove_widgets_loop n e s4 nx)
         else
           case (if guii_widget_allowchildren s h then remove_widgets n e s (Some h) else Some s) of
             None \<Rightarrow> None
           | Some s1 \<Rightarrow> remove_widgets_loop n e s1 (gui_linkedlist_widgetgetnext s1 None (Some h)))"

definition gui_widget_executeremove :: "nat \<Rightarrow> gui_env \<Rightarrow> gui_t \<Rightarrow> (u8 \<times> gui_t) option" where
  "gui_widget_executeremove n e s =
    (if Flags s AND GUI_FLAG_REMOVE \<noteq> 0 then
       (case remove_widgets n e s None of
          None \<Rightarrow> None
        | Some s' \<Rightarrow> Some (1, s'\<lparr>Flags := Flags s' AND NOT GUI_FLAG_REMOVE\<rparr>))
     else Some (0, s))"

subsection \<open>Creation\<close>

text \<open>The content of a node after \<open>memset(h, 0x00, widget->Size)\<close>.\<close>

definition zero_handle :: gui_handle where
  "zero_handle = \<lparr>prev = None, nxt = None, h_id = 0, widget = \<lparr>w_size = 0, w_flags = 0\<rparr>,
     parent = None, pos_x = 0, pos_y = 0, width = 0, height = 0, zindex = 0, transparency = 0,
     flags = 0, font = None, h_text = None, timer = None,
     colors = None, root_list = \<lparr>first = None, last' = None\<rparr>\<rparr>"


definition GUI_LEAVE :: "nat \<Rightarrow> nat" where
  "GUI_LEAVE k = k - 1"


subsection \<open>Dialogs (gui\_dialog.c)\<close>

definition zero_dialog :: dissmissed_dialog_list_t where
  "zero_dialog = \<lparr>prev = None, nxt = None, d_id = 0, d_h = None, status = 0, sem = None, ib = 0\<rparr>"

text \<open>\<open>alloc\<close> is what \<open>GUI_MEMALLOC\<close> returns for the registry entry.\<close>

definition add_to_active_dialogs :: "gui_t \<Rightarrow> nat \<Rightarrow> ptr \<Rightarrow> ptr \<times> gui_t" where
  "add_to_active_dialogs s h alloc =
    (case alloc of
       None \<Rightarrow> (None, s)
     | Some l \<Rightarrow>
         let dh = (dheap s)(l := (dheap s l)\<lparr>d_h := Some h, d_id := h_id (heap s h)\<rparr>)
         in case gui_linkedlist_add_gen (ddlist s) dh l of
              (rt, dh') \<Rightarrow> (Some l, s\<lparr>ddlist := rt, dheap := dh', dmem := insert l (dmem s)\<rparr>))"

definition remove_from_active_dialogs :: "gui_t \<Rightarrow> nat \<Rightarrow> gui_t" where
  "remove_from_active_dialogs s l =
    (case gui_linkedlist_remove_gen (ddlist s) (dheap s) (Some l) of
       (r, rt, dh') \<Rightarrow> s\<lparr>ddlist := rt, dheap := dh', dmem := dmem s - {l}\<rparr>)"

fun get_dialog_loop :: "nat \<Rightarrow> gui_t \<Rightarrow> nat \<Rightarrow> ptr \<Rightarrow> ptr option" where
  "get_dialog_loop 0 s h l = None"
| "get_dialog_loop (Suc n) s h l =
    (case l of
       None \<Rightarrow> Some None
     | Some la \<Rightarrow>
         if d_h (dheap s la) = Some h \<and> d_id (dheap s la) = h_id (heap s h) then Some (Some la)
         else get_dialog_loop n s h (gui_linkedlist_getnext_gen None (dheap s) (Some la)))"

definition get_dialog :: "nat \<Rightarrow> gui_t \<Rightarrow> nat \<Rightarrow> ptr option" where
  "get_dialog n s h = get_dialog_loop n s h (gui_linkedlist_getnext_gen (Some (ddlist s)) (dheap s) None)"

text \<open>
  \<open>gui_dialog_dismiss\<close>. The local \<open>ret\<close> is set to 0 and never written again.
\<close>

definition gui_dialog_dismiss :: "nat \<Rightarrow> gui_env \<Rightarrow> gui_t \<Rightarrow> nat \<Rightarrow> int \<Rightarrow> (u8 \<times> gui_t) option" where
  "gui_dialog_dismiss n e s h st =
    (let ret = 0
     in case get_dialog n s h of
          None \<Rightarrow> None
        | Some None \<Rightarrow> Some (ret, s)
        | Some (Some l) \<Rightarrow>
            let s1 = s\<lparr>dheap := (dheap s)(l := (dheap s l)\<lparr>status := st\<rparr>)\<rparr>;
                s2 = snd (guii_widget_callback e s1 h GUI_WC_OnDismiss (status (dheap s1 l)) 0);
                s3 = (if GUI_CFG_OS s2 \<and> ib (dheap s2 l) \<noteq> 0 \<and> sem (dheap s2 l) \<noteq> None
                      then s2\<lparr>dheap := (dheap s2)(l := (dheap s2 l)\<lparr>sem := Some True\<rparr>)\<rparr>
                      else remove_from_active_dialogs s2 l)
            in case guii_widget_remove n e s3 h of
                 None \<Rightarrow> None
               | Some (r, s4) \<Rightarrow> Some (ret, s4))"

subsection \<open>Concrete states\<close>

text \<open>
  \<open>gui_init\<close> is the state before anything is created: all memory zeroed, nothing
  allocated, no list has an element.
\<close>

definition gui_init :: gui_t where
  "gui_init = \<lparr>heap = (\<lambda>a. zero_handle), mem = {}, Root = \<lparr>first = None, last' = None\<rparr>,
     FocusedWidget = None, FocusedWidgetPrev = None, ActiveWidget = None, ActiveWidgetPrev = None,
     WindowActive = None, Flags = 0, Display = \<lparr>X1 = 0, Y1 = 0, X2 = 0, Y2 = 0\<rparr>,
     desktop = None, ddlist = \<lparr>first = None, last' = None\<rparr>, dheap = (\<lambda>a. zero_dialog), dmem = {},
     freed = [], timers_removed = [], events = [], mbox = [], lvl = 0,
     GUI_CFG_OS = False, GUI_CFG_USE_TRANSPARENCY = False\<rparr>"

text \<open>
  A top level list of two plain widgets, 1 with z-index 0 followed by 2 with z-index 5.
\<close>

definition movetotop_state :: gui_t where
  "movetotop_state = gui_init\<lparr>
     heap := (\<lambda>a. zero_handle)
       (1 := zero_handle\<lparr>nxt := Some 2\<rparr>,
        2 := zero_handle\<lparr>prev := Some 1, zindex := 5\<rparr>),
     Root := \<lparr>first = Some 1, last' = Some 2\<rparr>\<rparr>"

text \<open>
  A desktop (address 0) and two widgets that are about to be linked as its children: 1 of a
  type that is a dialog base and does not allow children (the type of node a call
  \<open>gui_dialog_create(..., gui_button_create, ...)\<close> yields), 2 of a type that allows
  children (a window or a container).
\<close>

definition order_state :: gui_t where
  "order_state = gui_init\<lparr>
     heap := (\<lambda>a. zero_handle)
       (0 := zero_handle\<lparr>widget := \<lparr>w_size = 0, w_flags = GUI_FLAG_WIDGET_ALLOW_CHILDREN\<rparr>\<rparr>,
        1 := zero_handle\<lparr>widget := \<lparr>w_size = 0, w_flags = GUI_FLAG_WIDGET_DIALOG_BASE\<rparr>, parent := Some 0\<rparr>,
        2 := zero_handle\<lparr>widget := \<lparr>w_size = 0, w_flags = GUI_FLAG_WIDGET_ALLOW_CHILDREN\<rparr>, parent := Some 0\<rparr>),
     Root := \<lparr>first = Some 0, last' = Some 0\<rparr>, desktop := Some 0\<rparr>"


text \<open>A sample sequence of calls, used to exercise the list integrity theorem.\<close>

definition list_integrity_ops :: "ll_op list" where
  "list_integrity_ops =
    [Add 1, Add 2, Add 3, MoveUp (Some 3), Remove (Some 1), MoveDown (Some 3), Remove None]"


subsection \<open>Auxiliary notions for the statements\<close>

text \<open>
  \<open>skel s\<close> is the state \<open>s\<close> with everything erased that redrawing and focus
  handling may write: the per-widget flags, the global flags, the dirty rectangle, the
  message box, the event log and the focus pointers. Two states with the same skeleton
  have the same tree, the same lists, the same geometry and the same allocation.
\<close>

definition skel :: "gui_t \<Rightarrow> gui_t" where
  "skel s = s\<lparr>heap := (\<lambda>a. (heap s a)\<lparr>flags := 0\<rparr>), Flags := 0,
     Display := \<lparr>X1 = 0, Y1 = 0, X2 = 0, Y2 = 0\<rparr>, mbox := [], events := [],
     FocusedWidget := None, FocusedWidgetPrev := None\<rparr>"

text \<open>
  A widget tree is well formed when its parent links and its sibling and child links are
  acyclic. \<open>ranked s up dn L\<close> states this with two rank functions bounded by \<open>L\<close>:
  \<open>up\<close> decreases towards the parent, \<open>dn\<close> decreases towards the next sibling and
  towards the first child.
\<close>

definition ranked :: "gui_t \<Rightarrow> (nat \<Rightarrow> nat) \<Rightarrow> (nat \<Rightarrow> nat) \<Rightarrow> nat \<Rightarrow> bool" where
  "ranked s up dn L \<longleftrightarrow>
     (\<forall>a p. parent (heap s a) = Some p \<longrightarrow> up p < up a) \<and>
     (\<forall>a b. nxt (heap s a) = Some b \<longrightarrow> dn b < dn a) \<and>
     (\<forall>a c. first (root_list (heap s a)) = Some c \<longrightarrow> dn c < dn a) \<and>
     (\<forall>a. dn a < L) \<and> (\<forall>a. up a < L)"

text \<open>
  \<open>redraw_grown s s'\<close>: \<open>s'\<close> differs from \<open>s\<close> at most by redraw flags that were
  set and by a dirty rectangle that was enlarged.
\<close>

definition redraw_grown :: "gui_t \<Rightarrow> gui_t \<Rightarrow> bool" where
  "redraw_grown s s' \<longleftrightarrow>
     skel s' = skel s \<and> events s' = events s \<and>
     FocusedWidget s' = FocusedWidget s \<and> FocusedWidgetPrev s' = FocusedWidgetPrev s \<and>
     (\<forall>a. flags (heap s' a) = flags (heap s a) \<or>
          flags (heap s' a) = flags (heap s a) OR GUI_FLAG_REDRAW) \<and>
     (Flags s' = Flags s \<or> Flags s' = Flags s OR GUI_FLAG_REDRAW) \<and>
     X1 (Display s') \<le> X1 (Display s) \<and> X2 (Display s) \<le> X2 (Display s') \<and>
     Y1 (Display s') \<le> Y1 (Display s) \<and> Y2 (Display s) \<le> Y2 (Display s')"

text \<open>
  The first statements of \<open>invalidate_widget\<close> past the ignore check: mark the widget,
  mark the GUI, grow the dirty rectangle when asked to.
\<close>

definition inv_mark :: "gui_env \<Rightarrow> gui_t \<Rightarrow> nat \<Rightarrow> u8 \<Rightarrow> gui_t" where
  "inv_mark e s h c =
    (let s1 = guii_widget_setflag s h GUI_FLAG_REDRAW;
         s2 = s1\<lparr>Flags := Flags s1 OR GUI_FLAG_REDRAW\<rparr>
     in if c \<noteq> 0 then set_clipping_region e s2 h else s2)"

text \<open>The rank of a pointer: 0 for the null pointer.\<close>

definition rk :: "(nat \<Rightarrow> nat) \<Rightarrow> ptr \<Rightarrow> nat" where
  "rk f p = (case p of None \<Rightarrow> 0 | Some a \<Rightarrow> Suc (f a))"

text \<open>
  \<open>follow hp k p\<close> is the node reached from \<open>p\<close> by \<open>k\<close> steps along the next links;
  \<open>rect_contains D r\<close> holds when rectangle \<open>r\<close> lies within \<open>D\<close>.
\<close>

fun follow :: "'a llheap \<Rightarrow> nat \<Rightarrow> ptr \<Rightarrow> ptr" where
  "follow hp 0 p = p"
| "follow hp (Suc k) p = (case p of None \<Rightarrow> None | Some a \<Rightarrow> follow hp k (nxt (hp a)))"

definition rect_contains :: "gui_display_t \<Rightarrow> gui_display_t \<Rightarrow> bool" where
  "rect_contains D r \<longleftrightarrow> X1 D \<le> X1 r \<and> X2 r \<le> X2 D \<and> Y1 D \<le> Y1 r \<and> Y2 r \<le> Y2 D"

subsection \<open>A sample widget tree\<close>

text \<open>
  A sample environment: every callback processes every command and leaves the result
  cell alone, every widget is visible in the rectangle (0,0)-(10,10).
\<close>

definition sample_env :: gui_env where
  "sample_env = \<lparr>callback = (\<lambda>h ctrl r. (1, r)),
     visible = (\<lambda>h. \<lparr>X1 = 0, Y1 = 0, X2 = 10, Y2 = 10\<rparr>),
     sizeof_gui_handle = 8, sizeof_gui_handle_root = 16,
     GUI_FLAG_WIDGET_CREATE_PARENT_DESKTOP = 1, default_font = None\<rparr>"

text \<open>
  A desktop (address 0) with two children, the container 1 followed by the plain widget 2;
  the container has one child, the plain widget 3.
\<close>

definition tree_state :: gui_t where
  "tree_state = gui_init\<lparr>
     heap := (\<lambda>a. zero_handle)
       (0 := zero_handle\<lparr>widget := \<lparr>w_size = 16, w_flags = GUI_FLAG_WIDGET_ALLOW_CHILDREN\<rparr>,
                         transparency := 0xFF,
                         root_list := \<lparr>first = Some 1, last' = Some 2\<rparr>\<rparr>,
        1 := zero_handle\<lparr>nxt := Some 2, transparency := 0xFF,
                         widget := \<lparr>w_size = 16, w_flags = GUI_FLAG_WIDGET_ALLOW_CHILDREN\<rparr>,
                         parent := Some 0, root_list := \<lparr>first = Some 3, last' = Some 3\<rparr>\<rparr>,
        2 := zero_handle\<lparr>prev := Some 1, parent := Some 0, transparency := 0xFF\<rparr>,
        3 := zero_handle\<lparr>parent := Some 1, transparency := 0xFF\<rparr>),
     mem := {0, 1, 2, 3},
     Root := \<lparr>first = Some 0, last' = Some 0\<rparr>, desktop := Some 0\<rparr>"

definition tree_up :: "nat \<Rightarrow> nat" where
  "tree_up a = (if a = 0 then 0 else if a = 3 then 2 else 1)"

definition tree_dn :: "nat \<Rightarrow> nat" where
  "tree_dn a = (if a = 0 then 3 else if a = 1 then 2 else 0)"

subsection \<open>The dialog registry as a list\<close>

text \<open>
  \<open>dialog_entry_of s h l\<close>: registry entry \<open>l\<close> belongs to node \<open>h\<close>, by the test of
  \<open>get_dialog\<close> (same handle and same id).
\<close>

definition dialog_entry_of :: "gui_t \<Rightarrow> nat \<Rightarrow> nat \<Rightarrow> bool" where
  "dialog_entry_of s h l \<longleftrightarrow> d_h (dheap s l) = Some h \<and> d_id (dheap s l) = h_id (heap s h)"

text \<open>
  The sample tree with one open dialog: registry entry 7 belongs to widget 2.
\<close>

definition dialog_state :: gui_t where
  "dialog_state = tree_state\<lparr>
     ddlist := \<lparr>first = Some 7, last' = Some 7\<rparr>,
     dheap := (\<lambda>a. zero_dialog)(7 := zero_dialog\<lparr>d_h := Some 2\<rparr>),
     dmem := {7}\<rparr>"

subsection \<open>Ancestor chains and the focus paths\<close>

text \<open>
  \<open>ancestors s m p\<close> is the chain \<open>p\<close>, parent of \<open>p\<close>, ... (at most \<open>m\<close> nodes);
  \<open>below c xs\<close> is the part of a chain that lies strictly below \<open>c\<close>.
\<close>

fun ancestors :: "gui_t \<Rightarrow> nat \<Rightarrow> ptr \<Rightarrow> nat list" where
  "ancestors s 0 p = []"
| "ancestors s (Suc m) p =
    (case p of None \<Rightarrow> [] | Some a \<Rightarrow> a # ancestors s m (parent (heap s a)))"

definition below :: "ptr \<Rightarrow> nat list \<Rightarrow> nat list" where
  "below c xs = takeWhile (\<lambda>a. Some a \<noteq> c) xs"

text \<open>
  The nearest common ancestor as the spec describes it: the first node on the ancestor
  chain of the old focus that is also on the ancestor chain of the target; the first
  element of the root list when there is no current focus or no common node.
\<close>

definition common_parent :: "gui_t \<Rightarrow> nat \<Rightarrow> ptr \<Rightarrow> ptr \<Rightarrow> ptr" where
  "common_parent s m old target =
    (case find (\<lambda>a. a \<in> set (ancestors s m target)) (ancestors s m old) of
       Some c \<Rightarrow> Some c
     | None \<Rightarrow> first (Root s))"

definition focus_out_path :: "gui_t \<Rightarrow> nat \<Rightarrow> nat \<Rightarrow> nat list" where
  "focus_out_path s m h =
     below (common_parent s m (FocusedWidget s) (Some h)) (ancestors s m (FocusedWidget s))"

definition focus_in_path :: "gui_t \<Rightarrow> nat \<Rightarrow> nat \<Rightarrow> nat list" where
  "focus_in_path s m h =
     below (common_parent s m (FocusedWidget s) (Some h)) (ancestors s m (Some h))"

text \<open>
  \<open>nr x\<close> is the flag word \<open>x\<close> without its redraw bit. \<open>path_post s ctrl g xs s'\<close>
  describes the state \<open>s'\<close> reached from \<open>s\<close> by a walk over the nodes \<open>xs\<close> that
  applies \<open>g\<close> to the flags of each node, notifies it with \<open>ctrl\<close> and invalidates it.
\<close>

definition nr :: "u32 \<Rightarrow> u32" where
  "nr x = x AND NOT GUI_FLAG_REDRAW"

definition path_post :: "gui_t \<Rightarrow> gui_wc_t \<Rightarrow> (u32 \<Rightarrow> u32) \<Rightarrow> nat list \<Rightarrow> gui_t \<Rightarrow> bool" where
  "path_post s ctrl g xs s' \<longleftrightarrow>
     skel s' = skel s \<and> FocusedWidgetPrev s' = FocusedWidgetPrev s \<and>
     events s' = events s @ map (\<lambda>a. (a, ctrl, 0)) xs \<and>
     (\<forall>a. nr (flags (heap s' a)) =
          (if a \<in> set xs then g (nr (flags (heap s a))) else nr (flags (heap s a)))) \<and>
     (\<forall>a. flags (heap s a) AND GUI_FLAG_REDRAW \<noteq> 0 \<longrightarrow> flags (heap s' a) AND GUI_FLAG_REDRAW \<noteq> 0) \<and>
     (\<forall>a. a \<in> set xs \<longrightarrow> flags (heap s a) AND GUI_FLAG_IGNORE_INVALIDATE = 0 \<longrightarrow>
          flags (heap s' a) AND GUI_FLAG_REDRAW \<noteq> 0) \<and>
     (Flags s' = Flags s \<or> Flags s' = Flags s OR GUI_FLAG_REDRAW)"

text \<open>The sample tree with the focus on widget 3.\<close>

definition focus_state :: gui_t where
  "focus_state = tree_state\<lparr>FocusedWidget := Some 3\<rparr>"

subsection \<open>The removal check, and the documented veto\<close>

text \<open>
  \<open>remove_refused\<close> and \<open>remove_allowed\<close> are read off the code, for use in the proofs:
  the test \<open>can_remove_widget\<close> applies to the answer to \<open>GUI_WC_Remove\<close>, and the value
  the recursive check computes (not the desktop, not refused, and every child of a widget
  that allows children allowed in turn; \<open>all_remove_allowed\<close> ranges over a sibling
  list). The first argument bounds the depth of the recursion.
\<close>

definition remove_refused :: "gui_env \<Rightarrow> nat \<Rightarrow> bool" where
  "remove_refused e h \<longleftrightarrow> fst (callback e h GUI_WC_Remove 1) \<noteq> 0 \<and> snd (callback e h GUI_WC_Remove 1) = 0"

fun remove_allowed :: "nat \<Rightarrow> gui_env \<Rightarrow> gui_t \<Rightarrow> nat \<Rightarrow> bool"
  and all_remove_allowed :: "nat \<Rightarrow> gui_env \<Rightarrow> gui_t \<Rightarrow> ptr \<Rightarrow> bool" where
  "remove_allowed 0 e s h = False"
| "remove_allowed (Suc n) e s h =
    (Some h \<noteq> desktop s \<and> \<not> remove_refused e h \<and>
     (guii_widget_allowchildren s h \<longrightarrow> all_remove_allowed n e s (first (root_list (heap s h)))))"
| "all_remove_allowed 0 e s p = False"
| "all_remove_allowed (Suc n) e s p =
    (case p of None \<Rightarrow> True | Some c \<Rightarrow> remove_allowed n e s c \<and> all_remove_allowed n e s (nxt (heap s c)))"

text \<open>
  Modelled from gui\_defs.h: a widget vetoes its removal by answering the query
  \<open>GUI_WC_CanRemove\<close> with the result 0 ("do not remove").
\<close>

definition vetoes :: "gui_env \<Rightarrow> nat \<Rightarrow> bool" where
  "vetoes e h \<longleftrightarrow>
     fst (callback e h GUI_WC_CanRemove 1) \<noteq> 0 \<and> snd (callback e h GUI_WC_CanRemove 1) = 0"

text \<open>
  An environment in which every widget vetoes its removal the documented way and leaves
  every other command, the notification \<open>GUI_WC_Remove\<close> included, unprocessed.
\<close>

definition veto_env :: gui_env where
  "veto_env = sample_env\<lparr>callback :=
     (\<lambda>h ctrl r. if ctrl = GUI_WC_CanRemove then (1, 0) else (0, r))\<rparr>"

subsection \<open>The state a dismissal hands to the removal\<close>

text \<open>
  \<open>dismiss_pre e s h st l\<close> is the state in which \<open>gui_dialog_dismiss\<close> calls
  \<open>guii_widget_remove\<close> when it found the entry \<open>l\<close>: status stored, callback notified,
  semaphore released or entry removed from the registry.
\<close>

definition dismiss_pre :: "gui_env \<Rightarrow> gui_t \<Rightarrow> nat \<Rightarrow> int \<Rightarrow> nat \<Rightarrow> gui_t" where
  "dismiss_pre e s h st l =
    (let s1 = s\<lparr>dheap := (dheap s)(l := (dheap s l)\<lparr>status := st\<rparr>)\<rparr>;
         s2 = snd (guii_widget_callback e s1 h GUI_WC_OnDismiss (status (dheap s1 l)) 0)
     in if GUI_CFG_OS s2 \<and> ib (dheap s2 l) \<noteq> 0 \<and> sem (dheap s2 l) \<noteq> None
        then s2\<lparr>dheap := (dheap s2)(l := (dheap s2 l)\<lparr>sem := Some True\<rparr>)\<rparr>
        else remove_from_active_dialogs s2 l)"



section \<open>Verification\<close>

subsection \<open>Generic list operations preserve the list structure\<close>

lemma dllI:
  assumes "distinct xs"
    and "xs = [] \<Longrightarrow> first root = None \<and> last' root = None"
    and "xs \<noteq> [] \<Longrightarrow> first root = Some (xs ! 0) \<and> last' root = Some (xs ! (length xs - Suc 0))"
    and "xs \<noteq> [] \<Longrightarrow> prev (hp (xs ! 0)) = None"
    and "xs \<noteq> [] \<Longrightarrow> nxt (hp (xs ! (length xs - Suc 0))) = None"
    and "\<And>i. Suc i < length xs \<Longrightarrow> nxt (hp (xs ! i)) = Some (xs ! Suc i)"
    and "\<And>i. Suc i < length xs \<Longrightarrow> prev (hp (xs ! Suc i)) = Some (xs ! i)"
  shows "dll root hp xs"
  using assms unfolding dll_def by blast

lemma dll_nxt: "dll root hp xs \<Longrightarrow> Suc i < length xs \<Longrightarrow> nxt (hp (xs ! i)) = Some (xs ! Suc i)"
  unfolding dll_def by blast

lemma dll_prev: "dll root hp xs \<Longrightarrow> Suc i < length xs \<Longrightarrow> prev (hp (xs ! Suc i)) = Some (xs ! i)"
  unfolding dll_def by blast

lemma dll_prev0: "dll root hp xs \<Longrightarrow> xs \<noteq> [] \<Longrightarrow> prev (hp (xs ! 0)) = None"
  unfolding dll_def by blast

lemma dll_nxt_last: "dll root hp xs \<Longrightarrow> xs \<noteq> [] \<Longrightarrow> nxt (hp (xs ! (length xs - Suc 0))) = None"
  unfolding dll_def by blast

lemma dll_distinct: "dll root hp xs \<Longrightarrow> distinct xs"
  unfolding dll_def by blast

lemma dll_first: "dll root hp xs \<Longrightarrow> xs \<noteq> [] \<Longrightarrow> first root = Some (xs ! 0)"
  unfolding dll_def by blast

lemma dll_last: "dll root hp xs \<Longrightarrow> xs \<noteq> [] \<Longrightarrow> last' root = Some (xs ! (length xs - Suc 0))"
  unfolding dll_def by blast

lemma dll_Nil: "dll root hp [] \<longleftrightarrow> first root = None \<and> last' root = None"
  unfolding dll_def by simp

lemma dll_neq: "dll root hp xs \<Longrightarrow> i < length xs \<Longrightarrow> j < length xs \<Longrightarrow> i \<noteq> j \<Longrightarrow> xs ! i \<noteq> xs ! j"
  unfolding dll_def by (simp add: nth_eq_iff_index_eq)

lemma dll_add:
  assumes d: "dll root hp xs" and fresh: "e \<notin> set xs"
  shows "dll (fst (gui_linkedlist_add_gen root hp e)) (snd (gui_linkedlist_add_gen root hp e)) (xs @ [e])"
proof (cases "xs = []")
  case True
  with assms show ?thesis by (simp add: dll_def gui_linkedlist_add_gen_def)
next
  case False
  define n where "n = length xs"
  define l where "l = xs ! (n - Suc 0)"
  have n0: "0 < n" using False by (simp add: n_def)
  have ne: "\<And>i. i < n \<Longrightarrow> xs ! i \<noteq> e" using fresh unfolding n_def by (metis nth_mem)
  have lne: "l \<noteq> e" using ne[of "n - Suc 0"] n0 by (simp add: l_def)
  have fr: "first root = Some (xs ! 0)" using dll_first[OF d False] .
  have la: "last' root = Some l" using dll_last[OF d False] by (simp add: l_def n_def)
  have r: "fst (gui_linkedlist_add_gen root hp e) = root\<lparr>last' := Some e\<rparr>"
    by (simp add: gui_linkedlist_add_gen_def fr la Let_def)
  define hp' where "hp' = snd (gui_linkedlist_add_gen root hp e)"
  have h: "hp' = (hp(e := (hp e)\<lparr>nxt := None, prev := Some l\<rparr>))(l := (hp l)\<lparr>nxt := Some e\<rparr>)"
    using lne by (simp add: hp'_def gui_linkedlist_add_gen_def fr la Let_def)
  have hl: "prev (hp' l) = prev (hp l)" "nxt (hp' l) = Some e" by (simp_all add: h)
  have he: "prev (hp' e) = Some l" "nxt (hp' e) = None" using lne by (simp_all add: h)
  have ho: "\<And>a. a \<noteq> l \<Longrightarrow> a \<noteq> e \<Longrightarrow> hp' a = hp a" by (simp add: h)
  have hp: "\<And>a. a \<noteq> e \<Longrightarrow> prev (hp' a) = prev (hp a)" by (simp add: h)
  have app: "\<And>j. j < n \<Longrightarrow> (xs @ [e]) ! j = xs ! j" "(xs @ [e]) ! n = e"
    by (simp_all add: nth_append n_def)
  show ?thesis unfolding r hp'_def[symmetric]
  proof (rule dllI)
    show "distinct (xs @ [e])" using dll_distinct[OF d] fresh by simp
    show "xs @ [e] = [] \<Longrightarrow> first (root\<lparr>last' := Some e\<rparr>) = None \<and> last' (root\<lparr>last' := Some e\<rparr>) = None"
      by simp
    show "first (root\<lparr>last' := Some e\<rparr>) = Some ((xs @ [e]) ! 0) \<and>
        last' (root\<lparr>last' := Some e\<rparr>) = Some ((xs @ [e]) ! (length (xs @ [e]) - Suc 0))"
      using fr app(1)[OF n0] by (simp add: app(2)[unfolded n_def])
    show "prev (hp' ((xs @ [e]) ! 0)) = None"
      using dll_prev0[OF d False] hp[OF ne[OF n0]] by (simp add: app(1)[OF n0])
    show "nxt (hp' ((xs @ [e]) ! (length (xs @ [e]) - Suc 0))) = None"
      using he by (simp add: app(2)[unfolded n_def])
  next
    fix i assume i: "Suc i < length (xs @ [e])"
    then have i': "i < n" by (simp add: n_def)
    show "nxt (hp' ((xs @ [e]) ! i)) = Some ((xs @ [e]) ! Suc i)"
    proof (cases "Suc i = n")
      case True
      then have "xs ! i = l" by (auto simp add: l_def)
      then show ?thesis using hl by (simp add: app(1)[OF i'] True app(2))
    next
      case False
      then have si: "Suc i < n" "Suc i < length xs" "i < length xs" "n - Suc 0 < length xs" "i \<noteq> n - Suc 0"
        using i' by (simp_all add: n_def)
      have "xs ! i \<noteq> l" unfolding l_def by (rule dll_neq[OF d si(3) si(4) si(5)])
      then show ?thesis using dll_nxt[OF d si(2)] ho[OF _ ne[OF i']]
        by (simp add: app(1)[OF i'] app(1)[OF si(1)])
    qed
    show "prev (hp' ((xs @ [e]) ! Suc i)) = Some ((xs @ [e]) ! i)"
    proof (cases "Suc i = n")
      case True
      then have "xs ! i = l" by (auto simp add: l_def)
      then show ?thesis using he by (simp add: app(1)[OF i'] True app(2))
    next
      case False
      then have si: "Suc i < n" "Suc i < length xs" using i' by (simp_all add: n_def)
      show ?thesis using dll_prev[OF d si(2)] hp[OF ne[OF si(1)]]
        by (simp add: app(1)[OF i'] app(1)[OF si(1)])
    qed
  qed
qed


lemma dll_nth_eq: "dll root hp xs \<Longrightarrow> i < length xs \<Longrightarrow> j < length xs \<Longrightarrow> (xs ! i = xs ! j) = (i = j)"
  unfolding dll_def by (simp add: nth_eq_iff_index_eq)

lemma dll_prev_idx: "dll root hp xs \<Longrightarrow> k < length xs \<Longrightarrow>
    prev (hp (xs ! k)) = (case k of 0 \<Rightarrow> None | Suc j \<Rightarrow> Some (xs ! j))"
  by (cases k) (auto simp: dll_prev dll_prev0)

lemma dll_nxt_idx:
  assumes "dll root hp xs" "k < length xs"
  shows "nxt (hp (xs ! k)) = (if Suc k = length xs then None else Some (xs ! Suc k))"
proof (cases "Suc k = length xs")
  case True
  then have "length xs - Suc 0 = k" "xs \<noteq> []" by auto
  then show ?thesis using dll_nxt_last[OF assms(1)] True by simp
next
  case False
  then show ?thesis using dll_nxt[OF assms(1), of k] assms(2) by simp
qed


lemma nth_remove_idx:
  "j < length xs - Suc 0 \<Longrightarrow> k < length xs \<Longrightarrow>
   (take k xs @ drop (Suc k) xs) ! j = (if j < k then xs ! j else xs ! Suc j)"
  by (simp add: nth_append min_def)

lemma remove_gen_root:
  "first (fst (snd (gui_linkedlist_remove_gen root hp (Some e)))) =
     (if first root = Some e then nxt (hp e) else first root)"
  "last' (fst (snd (gui_linkedlist_remove_gen root hp (Some e)))) =
     (if last' root = Some e then prev (hp e) else last' root)"
  by (simp_all add: gui_linkedlist_remove_gen_def Let_def)

lemma dll_remove:
  assumes d: "dll root hp xs" and k: "k < length xs"
  shows "dll (fst (snd (gui_linkedlist_remove_gen root hp (Some (xs ! k)))))
             (snd (snd (gui_linkedlist_remove_gen root hp (Some (xs ! k)))))
             (take k xs @ drop (Suc k) xs)"
proof -
  define e where "e = xs ! k"
  define P where "P = prev (hp e)"
  define N where "N = nxt (hp e)"
  define ys where "ys = take k xs @ drop (Suc k) xs"
  define hp' where "hp' = snd (snd (gui_linkedlist_remove_gen root hp (Some e)))"
  define root' where "root' = fst (snd (gui_linkedlist_remove_gen root hp (Some e)))"
  have xne: "xs \<noteq> []" using k by auto
  have P: "P = (case k of 0 \<Rightarrow> None | Suc j \<Rightarrow> Some (xs ! j))"
    unfolding P_def e_def by (rule dll_prev_idx[OF d k])
  have N: "N = (if Suc k = length xs then None else Some (xs ! Suc k))"
    unfolding N_def e_def by (rule dll_nxt_idx[OF d k])
  have Pe: "P \<noteq> Some e" using k dll_nth_eq[OF d, of _ k] by (auto simp: P e_def split: nat.splits)
  have Ne: "N \<noteq> Some e" using k dll_nth_eq[OF d, of "Suc k" k] by (auto simp: N e_def)
  have PN: "N \<noteq> Some a" if "P = Some a" for a
  proof (cases k)
    case 0
    then show ?thesis using that by (simp add: P)
  next
    case (Suc j)
    show ?thesis
    proof (cases "Suc k = length xs")
      case True
      then show ?thesis by (simp add: N)
    next
      case False
      then have b: "j < length xs" "Suc k < length xs" "j \<noteq> Suc k" using k Suc by simp_all
      show ?thesis using that dll_neq[OF d b] False by (simp add: P N Suc)
    qed
  qed
  have F1: "nxt (hp' a) = (if Some a = P then N else nxt (hp a))" if "a \<noteq> e" for a
    using that PN unfolding hp'_def gui_linkedlist_remove_gen_def P_def N_def
    by (cases "prev (hp e)"; cases "nxt (hp e)"; simp add: Let_def)
  have F2: "prev (hp' a) = (if Some a = N then P else prev (hp a))" if "a \<noteq> e" for a
    using that PN unfolding hp'_def gui_linkedlist_remove_gen_def P_def N_def
    by (cases "prev (hp e)"; cases "nxt (hp e)"; simp add: Let_def)
  have R1: "first root' = (if k = 0 then N else first root)"
  proof (cases k)
    case 0
    then show ?thesis using dll_first[OF d xne] by (simp add: root'_def remove_gen_root N_def e_def)
  next
    case (Suc j)
    then have "xs ! 0 \<noteq> xs ! k" using dll_neq[OF d, of 0 k] k xne by simp
    then show ?thesis using dll_first[OF d xne] Suc by (simp add: root'_def remove_gen_root e_def)
  qed
  have R2: "last' root' = (if Suc k = length xs then P else last' root)"
  proof (cases "Suc k = length xs")
    case True
    then have "length xs - Suc 0 = k" by simp
    then show ?thesis using dll_last[OF d xne] True by (simp add: root'_def remove_gen_root P_def e_def)
  next
    case False
    then have "xs ! (length xs - Suc 0) \<noteq> xs ! k" using dll_neq[OF d, of "length xs - Suc 0" k] k xne by simp
    then show ?thesis using dll_last[OF d xne] False by (simp add: root'_def remove_gen_root e_def)
  qed
  have len: "length ys = length xs - Suc 0" using k by (simp add: ys_def)
  have ysn: "\<And>j. Suc j < length xs \<Longrightarrow> ys ! j = (if j < k then xs ! j else xs ! Suc j)"
    unfolding ys_def using k by (simp add: nth_remove_idx)
  have H1: "(Some (xs ! i) = P) = (Suc i = k)" if "i < length xs" for i
  proof (cases k)
    case 0
    then show ?thesis by (simp add: P)
  next
    case (Suc j)
    then have "j < length xs" using k by simp
    then show ?thesis using dll_nth_eq[OF d that, of j] Suc by (auto simp add: P)
  qed
  have H2: "(Some (xs ! i) = N) = (i = Suc k)" if "i < length xs" for i
  proof (cases "Suc k = length xs")
    case True
    then show ?thesis using that by (auto simp add: N)
  next
    case False
    then have "Suc k < length xs" using k by simp
    then show ?thesis using dll_nth_eq[OF d that, of "Suc k"] False by (auto simp add: N)
  qed
  have xe: "xs ! i \<noteq> e" if "i < length xs" "i \<noteq> k" for i
    using dll_neq[OF d that(1) k that(2)] by (simp add: e_def)
  have G1: "nxt (hp' (xs ! i)) = (if Suc i = k then N else nxt (hp (xs ! i)))"
    if "i < length xs" "i \<noteq> k" for i
    using F1[OF xe[OF that]] H1[OF that(1)] by simp
  have G2: "prev (hp' (xs ! i)) = (if i = Suc k then P else prev (hp (xs ! i)))"
    if "i < length xs" "i \<noteq> k" for i
    using F2[OF xe[OF that]] H2[OF that(1)] by simp
  have "dll root' hp' ys"
  proof (rule dllI)
    have "distinct (take k xs @ xs ! k # drop (Suc k) xs)"
      using dll_distinct[OF d] by (simp add: id_take_nth_drop[OF k, symmetric])
    then show "distinct ys" by (simp add: ys_def)
  next
    assume "ys = []"
    then have "length xs = Suc 0" "k = 0" using len k xne by auto
    then show "first root' = None \<and> last' root' = None" by (simp add: R1 R2 P N)
  next
    assume yne: "ys \<noteq> []"
    then obtain m where m: "length xs = Suc (Suc m)" using len by (cases xs; cases "tl xs") auto
    have ym: "length ys - Suc 0 = m" using len m by simp
    show "first root' = Some (ys ! 0) \<and> last' root' = Some (ys ! (length ys - Suc 0))"
    proof
      show "first root' = Some (ys ! 0)"
        using dll_first[OF d xne] m by (cases k) (simp_all add: R1 N ysn)
      show "last' root' = Some (ys ! (length ys - Suc 0))"
      proof (cases "k = Suc m")
        case True
        then show ?thesis using m by (simp add: R2 P ysn ym)
      next
        case False
        then have "\<not> m < k" "Suc k \<noteq> length xs" using k m by simp_all
        then show ?thesis using dll_last[OF d xne] m by (simp add: R2 ysn ym)
      qed
    qed
    show "prev (hp' (ys ! 0)) = None"
    proof (cases k)
      case 0
      then show ?thesis using m G2[of "Suc 0"] by (simp add: ysn P)
    next
      case (Suc j)
      then show ?thesis using m G2[of 0] dll_prev0[OF d xne] by (simp add: ysn)
    qed
    show "nxt (hp' (ys ! (length ys - Suc 0))) = None"
    proof (cases "k = Suc m")
      case True
      then show ?thesis using m G1[of m] by (simp add: ysn ym N)
    next
      case False
      then have b: "\<not> m < k" "Suc m \<noteq> k" "Suc (Suc m) \<noteq> k" using k m by simp_all
      show ?thesis using m G1[of "Suc m"] b dll_nxt_idx[OF d, of "Suc m"] by (simp add: ysn ym)
    qed
  next
    fix i assume "Suc i < length ys"
    then have i: "Suc (Suc i) < length xs" using len by simp
    then have i2: "Suc i < length xs" "i < length xs" by simp_all
    consider "Suc i < k" | "Suc i = k" | "k \<le> i" by linarith
    then show "nxt (hp' (ys ! i)) = Some (ys ! Suc i)"
    proof cases
      case 1
      then have b: "i < k" "i \<noteq> k" "Suc i \<noteq> k" by simp_all
      show ?thesis using G1[OF i2(2) b(2)] dll_nxt[OF d i2(1)] 1 b by (simp add: ysn i i2)
    next
      case 2
      then have b: "i < k" "i \<noteq> k" "\<not> Suc i < k" "Suc k \<noteq> length xs" using i by simp_all
      have y: "ys ! i = xs ! i" "ys ! Suc i = xs ! Suc (Suc i)"
        using b(1) ysn[OF i2(1)] \<open>\<not> Suc i < k\<close> ysn[OF i] by simp_all
      have "N = Some (xs ! Suc k)" using b by (simp add: N)
      then have "N = Some (xs ! Suc (Suc i))" using 2 by simp
      moreover have "nxt (hp' (xs ! i)) = N" using G1[OF i2(2) b(2)] 2 by simp
      ultimately show ?thesis by (simp add: y)
    next
      case 3
      then have b: "\<not> i < k" "Suc i \<noteq> k" "\<not> Suc i < k" "Suc (Suc i) \<noteq> k" by simp_all
      show ?thesis using G1[OF i2(1) b(2)] dll_nxt[OF d i] b by (simp add: ysn i i2)
    qed
    consider "Suc i < k" | "Suc i = k" | "k \<le> i" by linarith
    then show "prev (hp' (ys ! Suc i)) = Some (ys ! i)"
    proof cases
      case 1
      then have b: "i < k" "Suc i \<noteq> k" "Suc i \<noteq> Suc k" by simp_all
      show ?thesis using G2[OF i2(1) b(2)] dll_prev[OF d i2(1)] 1 b by (simp add: ysn i i2)
    next
      case 2
      then have b: "i < k" "\<not> Suc i < k" "Suc (Suc i) \<noteq> k" "Suc (Suc i) = Suc k" by simp_all
      have y: "ys ! i = xs ! i" "ys ! Suc i = xs ! Suc (Suc i)"
        using b(1) ysn[OF i2(1)] \<open>\<not> Suc i < k\<close> ysn[OF i] by simp_all
      have "P = Some (xs ! i)" using 2[symmetric] by (simp add: P)
      moreover have "prev (hp' (xs ! Suc (Suc i))) = P" using G2[OF i b(3)] b(4) by simp
      ultimately show ?thesis by (simp add: y)
    next
      case 3
      then have b: "\<not> i < k" "\<not> Suc i < k" "Suc (Suc i) \<noteq> k" "Suc (Suc i) \<noteq> Suc k" by simp_all
      show ?thesis using G2[OF i b(3)] dll_prev[OF d i] b by (simp add: ysn i i2)
    qed
  qed
  then show ?thesis unfolding root'_def hp'_def ys_def e_def .
qed


lemma movedown_gen_root:
  assumes "Some e \<noteq> last' root"
  shows "first (fst (snd (gui_linkedlist_movedown_gen root hp (Some e)))) =
     (if first root = Some e then nxt (hp e) else first root)"
    "last' (fst (snd (gui_linkedlist_movedown_gen root hp (Some e)))) =
     (case nxt (hp e) of None \<Rightarrow> Some e
      | Some n \<Rightarrow> (case nxt (hp n) of None \<Rightarrow> Some e | Some nn \<Rightarrow> last' root))"
    "fst (gui_linkedlist_movedown_gen root hp (Some e)) = 1"
  using assms
  by (simp_all add: gui_linkedlist_movedown_gen_def Let_def split: option.splits)

lemma movedown_gen_heap:
  assumes "Some e \<noteq> last' root" "nxt (hp e) = Some n" "n \<noteq> e"
    and "prev (hp e) \<noteq> Some e" "prev (hp e) \<noteq> Some n"
    and "nxt (hp n) \<noteq> Some e" "nxt (hp n) \<noteq> Some n"
  defines "hp' \<equiv> snd (snd (gui_linkedlist_movedown_gen root hp (Some e)))"
  shows "nxt (hp' a) = (if a = e then nxt (hp n) else if a = n then Some e
                        else if Some a = prev (hp e) then Some n else nxt (hp a))"
    and "prev (hp' a) = (if a = e then Some n else if a = n then prev (hp e)
                        else if Some a = nxt (hp n) then Some e else prev (hp a))"
  using assms(1-7) unfolding hp'_def gui_linkedlist_movedown_gen_def
  by (cases "prev (hp e)"; cases "nxt (hp n)"; simp add: Let_def; fail)+


lemma dll_movedown:
  assumes d: "dll root hp xs" and k: "Suc k < length xs"
  shows "dll (fst (snd (gui_linkedlist_movedown_gen root hp (Some (xs ! k)))))
             (snd (snd (gui_linkedlist_movedown_gen root hp (Some (xs ! k)))))
             (xs[k := xs ! Suc k, Suc k := xs ! k])"
    and "fst (gui_linkedlist_movedown_gen root hp (Some (xs ! k))) = 1"
proof -
  define e where "e = xs ! k"
  define n where "n = xs ! Suc k"
  define P where "P = prev (hp e)"
  define NN where "NN = nxt (hp n)"
  define ys where "ys = xs[k := n, Suc k := e]"
  define hp' where "hp' = snd (snd (gui_linkedlist_movedown_gen root hp (Some e)))"
  define root' where "root' = fst (snd (gui_linkedlist_movedown_gen root hp (Some e)))"
  have k0: "k < length xs" using k by simp
  have xne: "xs \<noteq> []" using k by auto
  have P: "P = (case k of 0 \<Rightarrow> None | Suc j \<Rightarrow> Some (xs ! j))"
    unfolding P_def e_def by (rule dll_prev_idx[OF d k0])
  have NN: "NN = (if Suc (Suc k) = length xs then None else Some (xs ! Suc (Suc k)))"
    unfolding NN_def n_def by (rule dll_nxt_idx[OF d k])
  have Nx: "nxt (hp e) = Some n" unfolding e_def n_def by (rule dll_nxt[OF d k])
  have xe: "(xs ! i = e) = (i = k)" if "i < length xs" for i
    unfolding e_def by (rule dll_nth_eq[OF d that k0])
  have xn: "(xs ! i = n) = (i = Suc k)" if "i < length xs" for i
    unfolding n_def by (rule dll_nth_eq[OF d that k])
  have ne: "n \<noteq> e" using xe[OF k] by (simp add: n_def)
  have H1: "(Some (xs ! i) = P) = (Suc i = k)" if "i < length xs" for i
  proof (cases k)
    case 0
    then show ?thesis by (simp add: P)
  next
    case (Suc j)
    then have "j < length xs" using k by simp
    then show ?thesis using dll_nth_eq[OF d that, of j] Suc by (auto simp add: P)
  qed
  have H2: "(Some (xs ! i) = NN) = (i = Suc (Suc k))" if "i < length xs" for i
  proof (cases "Suc (Suc k) = length xs")
    case True
    then show ?thesis using that by (auto simp add: NN)
  next
    case False
    then have "Suc (Suc k) < length xs" using k by simp
    then show ?thesis using dll_nth_eq[OF d that, of "Suc (Suc k)"] False by (auto simp add: NN)
  qed
  have la: "Some e \<noteq> last' root"
  proof -
    have b: "length xs - Suc 0 < length xs" "length xs - Suc 0 \<noteq> k" using k by simp_all
    have "xs ! (length xs - Suc 0) \<noteq> e" using xe[OF b(1)] b(2) by simp
    then show ?thesis using dll_last[OF d xne] by simp
  qed
  have Pe: "P \<noteq> Some e" using H1[OF k0] by (auto simp: e_def)
  have Pn: "P \<noteq> Some n" using H1[OF k] by (auto simp: n_def)
  have NNe: "NN \<noteq> Some e" using H2[OF k0] by (auto simp: e_def)
  have NNn: "NN \<noteq> Some n" using H2[OF k] by (auto simp: n_def)
  note F = movedown_gen_heap[OF la Nx ne Pe[unfolded P_def] Pn[unfolded P_def] NNe[unfolded NN_def] NNn[unfolded NN_def],
      folded hp'_def P_def NN_def]
  have G1: "nxt (hp' (xs ! i)) = (if i = k then NN else if i = Suc k then Some e
               else if Suc i = k then Some n else nxt (hp (xs ! i)))" if "i < length xs" for i
    by (simp add: F(1) xe[OF that] xn[OF that] H1[OF that])
  have G2: "prev (hp' (xs ! i)) = (if i = k then Some n else if i = Suc k then P
               else if i = Suc (Suc k) then Some e else prev (hp (xs ! i)))" if "i < length xs" for i
    by (simp add: F(2) xe[OF that] xn[OF that] H2[OF that])
  have R1: "first root' = (if k = 0 then Some n else first root)"
  proof -
    have "0 < length xs" using xne by simp
    from xe[OF this] show ?thesis using dll_first[OF d xne]
      by (simp add: root'_def movedown_gen_root(1)[OF la] Nx)
  qed
  have R2: "last' root' = (if Suc (Suc k) = length xs then Some e else last' root)"
    by (simp add: root'_def movedown_gen_root(2)[OF la] Nx NN[unfolded NN_def])
  have len: "length ys = length xs" by (simp add: ys_def)
  have ysn: "ys ! j = (if j = Suc k then e else if j = k then n else xs ! j)" if "j < length xs" for j
    using that by (simp add: ys_def nth_list_update)
  have "dll root' hp' ys"
  proof (rule dllI)
    show "distinct ys" using dll_distinct[OF d] distinct_swap[OF k0 k, of ] by (simp add: ys_def n_def e_def)
    show "ys = [] \<Longrightarrow> first root' = None \<and> last' root' = None" using len xne by simp
  next
    assume "ys \<noteq> []"
    obtain m where m: "length xs = Suc m" using xne by (cases xs) auto
    have ym: "length ys - Suc 0 = m" using len m by simp
    have km: "k < m" using k m by simp
    have x0: "0 < length xs" using xne by simp
    have xm: "m < length xs" using m by simp
    show "first root' = Some (ys ! 0) \<and> last' root' = Some (ys ! (length ys - Suc 0))"
    proof
      show "first root' = Some (ys ! 0)"
        using dll_first[OF d xne] by (cases k) (simp_all add: R1 ysn[OF x0])
      show "last' root' = Some (ys ! (length ys - Suc 0))"
      proof (cases "m = Suc k")
        case True
        have "ys ! Suc k = e" using ysn[OF k] by simp
        then show ?thesis using m True by (simp add: R2 ym)
      next
        case False
        then have "m \<noteq> k" "Suc (Suc k) \<noteq> length xs" using km m by simp_all
        then show ?thesis using dll_last[OF d xne] m False by (simp add: R2 ysn[OF xm] ym)
      qed
    qed
    show "prev (hp' (ys ! 0)) = None"
    proof (cases k)
      case 0
      then have "ys ! 0 = xs ! Suc 0" by (simp add: ysn[OF x0] n_def)
      then show ?thesis using G2[OF k] 0 by (simp add: P)
    next
      case (Suc j)
      then have "ys ! 0 = xs ! 0" by (simp add: ysn[OF x0])
      then show ?thesis using G2[OF x0] Suc dll_prev0[OF d xne] by simp
    qed
    show "nxt (hp' (ys ! (length ys - Suc 0))) = None"
    proof (cases "m = Suc k")
      case True
      have "ys ! Suc k = xs ! k" using ysn[OF k] by (simp add: e_def)
      then show ?thesis using G1[OF k0] True m by (simp add: ym NN)
    next
      case False
      then have b: "m \<noteq> k" "Suc m \<noteq> k" using km by simp_all
      then have "ys ! m = xs ! m" using False by (simp add: ysn[OF xm])
      then show ?thesis using G1[OF xm] b False dll_nxt_idx[OF d xm] m by (simp add: ym)
    qed
  next
    fix i assume "Suc i < length ys"
    then have i: "Suc i < length xs" using len by simp
    then have i0: "i < length xs" by simp
    consider "Suc i < k" | "Suc i = k" | "i = k" | "i = Suc k" | "Suc k < i" by linarith
    then show "nxt (hp' (ys ! i)) = Some (ys ! Suc i)"
    proof cases
      case 1
      then have b: "i \<noteq> k" "i \<noteq> Suc k" "Suc i \<noteq> k" "Suc i \<noteq> Suc k" by simp_all
      have y: "ys ! i = xs ! i" "ys ! Suc i = xs ! Suc i" using b by (simp_all add: ysn[OF i0] ysn[OF i])
      show ?thesis using G1[OF i0] b dll_nxt[OF d i] by (simp add: y)
    next
      case 2
      then have b: "i \<noteq> k" "i \<noteq> Suc k" by simp_all
      have y: "ys ! i = xs ! i" using b by (simp add: ysn[OF i0])
      have y2: "ys ! Suc i = n" using ysn[OF i] 2 by simp
      have "nxt (hp' (xs ! i)) = Some n" using G1[OF i0] b(1) b(2) 2 by simp
      then show ?thesis by (simp add: y y2)
    next
      case 3
      have y: "ys ! i = xs ! Suc k" using ysn[OF i0] 3 by (simp add: n_def)
      have y2: "ys ! Suc i = e" using ysn[OF i] 3 by simp
      have "nxt (hp' (xs ! Suc k)) = Some e" using G1[OF k] by simp
      then show ?thesis by (simp add: y y2)
    next
      case 4
      then have ssk: "Suc (Suc k) < length xs" using i by simp
      have y: "ys ! i = xs ! k" using ysn[OF i0] 4 by (simp add: e_def)
      have y2: "ys ! Suc i = xs ! Suc (Suc k)" using ysn[OF i] 4 by simp
      have "nxt (hp' (xs ! k)) = Some (xs ! Suc (Suc k))" using G1[OF k0] ssk by (simp add: NN)
      then show ?thesis by (simp add: y y2)
    next
      case 5
      then have b: "i \<noteq> k" "i \<noteq> Suc k" "Suc i \<noteq> k" "Suc i \<noteq> Suc k" by simp_all
      have y: "ys ! i = xs ! i" "ys ! Suc i = xs ! Suc i" using b by (simp_all add: ysn[OF i0] ysn[OF i])
      show ?thesis using G1[OF i0] b dll_nxt[OF d i] by (simp add: y)
    qed
    consider "Suc i < k" | "Suc i = k" | "i = k" | "i = Suc k" | "Suc k < i" by linarith
    then show "prev (hp' (ys ! Suc i)) = Some (ys ! i)"
    proof cases
      case 1
      then have b: "i \<noteq> k" "i \<noteq> Suc k" "Suc i \<noteq> k" "Suc i \<noteq> Suc k" "Suc i \<noteq> Suc (Suc k)" by simp_all
      have y: "ys ! i = xs ! i" "ys ! Suc i = xs ! Suc i" using b by (simp_all add: ysn[OF i0] ysn[OF i])
      show ?thesis using G2[OF i] b dll_prev[OF d i] by (simp add: y)
    next
      case 2
      then have b: "i \<noteq> k" "i \<noteq> Suc k" by simp_all
      have y: "ys ! i = xs ! i" using b by (simp add: ysn[OF i0])
      have y2: "ys ! Suc i = xs ! Suc k" using ysn[OF i] 2 by (simp add: n_def)
      have "P = Some (xs ! i)" using 2[symmetric] by (simp add: P)
      moreover have "prev (hp' (xs ! Suc k)) = P" using G2[OF k] by simp
      ultimately show ?thesis by (simp add: y y2)
    next
      case 3
      have y: "ys ! i = n" using ysn[OF i0] 3 by simp
      have y2: "ys ! Suc i = xs ! k" using ysn[OF i] 3 by (simp add: e_def)
      have "prev (hp' (xs ! k)) = Some n" using G2[OF k0] by simp
      then show ?thesis by (simp add: y y2)
    next
      case 4
      then have ssk: "Suc (Suc k) < length xs" using i by simp
      have y: "ys ! i = e" using ysn[OF i0] 4 by simp
      have y2: "ys ! Suc i = xs ! Suc (Suc k)" using ysn[OF i] 4 by simp
      have "prev (hp' (xs ! Suc (Suc k))) = Some e" using G2[OF ssk] by simp
      then show ?thesis by (simp add: y y2)
    next
      case 5
      then have b: "i \<noteq> k" "i \<noteq> Suc k" "Suc i \<noteq> k" "Suc i \<noteq> Suc k" "Suc i \<noteq> Suc (Suc k)" by simp_all
      have y: "ys ! i = xs ! i" "ys ! Suc i = xs ! Suc i" using b by (simp_all add: ysn[OF i0] ysn[OF i])
      show ?thesis using G2[OF i] b dll_prev[OF d i] by (simp add: y)
    qed
  qed
  then show "dll (fst (snd (gui_linkedlist_movedown_gen root hp (Some (xs ! k)))))
             (snd (snd (gui_linkedlist_movedown_gen root hp (Some (xs ! k)))))
             (xs[k := xs ! Suc k, Suc k := xs ! k])"
    unfolding root'_def hp'_def ys_def e_def n_def .
  show "fst (gui_linkedlist_movedown_gen root hp (Some (xs ! k))) = 1"
    using movedown_gen_root(3)[OF la] by (simp add: e_def)
qed


lemma moveup_gen_root:
  assumes "Some e \<noteq> first root"
  shows "last' (fst (snd (gui_linkedlist_moveup_gen root hp (Some e)))) =
     (if last' root = Some e then prev (hp e) else last' root)"
    "first (fst (snd (gui_linkedlist_moveup_gen root hp (Some e)))) =
     (case prev (hp e) of None \<Rightarrow> Some e
      | Some p \<Rightarrow> (case prev (hp p) of None \<Rightarrow> Some e | Some pp \<Rightarrow> first root))"
    "fst (gui_linkedlist_moveup_gen root hp (Some e)) = 1"
  using assms
  by (simp_all add: gui_linkedlist_moveup_gen_def Let_def split: option.splits)

lemma moveup_gen_heap:
  assumes "Some e \<noteq> first root" "prev (hp e) = Some p" "p \<noteq> e"
    and "nxt (hp e) \<noteq> Some e" "nxt (hp e) \<noteq> Some p"
    and "prev (hp p) \<noteq> Some e" "prev (hp p) \<noteq> Some p"
  defines "hp' \<equiv> snd (snd (gui_linkedlist_moveup_gen root hp (Some e)))"
  shows "prev (hp' a) = (if a = e then prev (hp p) else if a = p then Some e
                        else if Some a = nxt (hp e) then Some p else prev (hp a))"
    and "nxt (hp' a) = (if a = e then Some p else if a = p then nxt (hp e)
                        else if Some a = prev (hp p) then Some e else nxt (hp a))"
  using assms(1-7) unfolding hp'_def gui_linkedlist_moveup_gen_def
  by (cases "nxt (hp e)"; cases "prev (hp p)"; simp add: Let_def; fail)+

lemma dll_moveup:
  assumes d: "dll root hp xs" and k: "Suc k < length xs"
  shows "dll (fst (snd (gui_linkedlist_moveup_gen root hp (Some (xs ! Suc k)))))
             (snd (snd (gui_linkedlist_moveup_gen root hp (Some (xs ! Suc k)))))
             (xs[k := xs ! Suc k, Suc k := xs ! k])"
    and "fst (gui_linkedlist_moveup_gen root hp (Some (xs ! Suc k))) = 1"
proof -
  define e where "e = xs ! Suc k"
  define p where "p = xs ! k"
  define N where "N = nxt (hp e)"
  define PP where "PP = prev (hp p)"
  define ys where "ys = xs[k := e, Suc k := p]"
  define hp' where "hp' = snd (snd (gui_linkedlist_moveup_gen root hp (Some e)))"
  define root' where "root' = fst (snd (gui_linkedlist_moveup_gen root hp (Some e)))"
  have k0: "k < length xs" using k by simp
  have xne: "xs \<noteq> []" using k by auto
  have x0: "0 < length xs" using xne by simp
  have PP: "PP = (case k of 0 \<Rightarrow> None | Suc j \<Rightarrow> Some (xs ! j))"
    unfolding PP_def p_def by (rule dll_prev_idx[OF d k0])
  have N: "N = (if Suc (Suc k) = length xs then None else Some (xs ! Suc (Suc k)))"
    unfolding N_def e_def by (rule dll_nxt_idx[OF d k])
  have Px: "prev (hp e) = Some p" unfolding e_def p_def by (rule dll_prev[OF d k])
  have xe: "(xs ! i = e) = (i = Suc k)" if "i < length xs" for i
    unfolding e_def by (rule dll_nth_eq[OF d that k])
  have xp: "(xs ! i = p) = (i = k)" if "i < length xs" for i
    unfolding p_def by (rule dll_nth_eq[OF d that k0])
  have pe: "p \<noteq> e" using xe[OF k0] by (simp add: p_def)
  have H1: "(Some (xs ! i) = PP) = (Suc i = k)" if "i < length xs" for i
  proof (cases k)
    case 0
    then show ?thesis by (simp add: PP)
  next
    case (Suc j)
    then have "j < length xs" using k by simp
    then show ?thesis using dll_nth_eq[OF d that, of j] Suc by (auto simp add: PP)
  qed
  have H2: "(Some (xs ! i) = N) = (i = Suc (Suc k))" if "i < length xs" for i
  proof (cases "Suc (Suc k) = length xs")
    case True
    then show ?thesis using that by (auto simp add: N)
  next
    case False
    then have "Suc (Suc k) < length xs" using k by simp
    then show ?thesis using dll_nth_eq[OF d that, of "Suc (Suc k)"] False by (auto simp add: N)
  qed
  have fi: "Some e \<noteq> first root"
  proof -
    have "xs ! 0 \<noteq> e" using xe[OF x0] by simp
    then show ?thesis using dll_first[OF d xne] by simp
  qed
  have Ne: "N \<noteq> Some e" using H2[OF k] by (auto simp: e_def)
  have Np: "N \<noteq> Some p" using H2[OF k0] by (auto simp: p_def)
  have PPe: "PP \<noteq> Some e" using H1[OF k] by (auto simp: e_def)
  have PPp: "PP \<noteq> Some p" using H1[OF k0] by (auto simp: p_def)
  note F = moveup_gen_heap[OF fi Px pe Ne[unfolded N_def] Np[unfolded N_def] PPe[unfolded PP_def] PPp[unfolded PP_def],
      folded hp'_def PP_def N_def]
  have G1: "nxt (hp' (xs ! i)) = (if i = Suc k then Some p else if i = k then N
               else if Suc i = k then Some e else nxt (hp (xs ! i)))" if "i < length xs" for i
    by (simp add: F(2) xe[OF that] xp[OF that] H1[OF that])
  have G2: "prev (hp' (xs ! i)) = (if i = Suc k then PP else if i = k then Some e
               else if i = Suc (Suc k) then Some p else prev (hp (xs ! i)))" if "i < length xs" for i
    by (simp add: F(1) xe[OF that] xp[OF that] H2[OF that])
  have R1: "first root' = (if k = 0 then Some e else first root)"
    by (cases k) (simp_all add: root'_def moveup_gen_root(2)[OF fi] Px PP[unfolded PP_def])
  have R2: "last' root' = (if Suc (Suc k) = length xs then Some p else last' root)"
  proof (cases "Suc (Suc k) = length xs")
    case True
    then have "length xs - Suc 0 = Suc k" by simp
    then have "last' root = Some e" using dll_last[OF d xne] by (simp add: e_def)
    then show ?thesis using True
      by (simp add: root'_def moveup_gen_root(1)[OF fi] Px)
  next
    case False
    then have b: "length xs - Suc 0 < length xs" "length xs - Suc 0 \<noteq> Suc k" using k by simp_all
    have "xs ! (length xs - Suc 0) \<noteq> e" using xe[OF b(1)] b(2) by simp
    then show ?thesis using dll_last[OF d xne] False
      by (simp add: root'_def moveup_gen_root(1)[OF fi])
  qed
  have len: "length ys = length xs" by (simp add: ys_def)
  have ysn: "ys ! j = (if j = Suc k then p else if j = k then e else xs ! j)" if "j < length xs" for j
    using that by (simp add: ys_def nth_list_update)
  have "dll root' hp' ys"
  proof (rule dllI)
    show "distinct ys" using dll_distinct[OF d] distinct_swap[OF k0 k, of ] by (simp add: ys_def p_def e_def)
    show "ys = [] \<Longrightarrow> first root' = None \<and> last' root' = None" using len xne by simp
  next
    assume "ys \<noteq> []"
    obtain m where m: "length xs = Suc m" using xne by (cases xs) auto
    have ym: "length ys - Suc 0 = m" using len m by simp
    have km: "k < m" using k m by simp
    have xm: "m < length xs" using m by simp
    show "first root' = Some (ys ! 0) \<and> last' root' = Some (ys ! (length ys - Suc 0))"
    proof
      show "first root' = Some (ys ! 0)"
        using dll_first[OF d xne] by (cases k) (simp_all add: R1 ysn[OF x0])
      show "last' root' = Some (ys ! (length ys - Suc 0))"
      proof (cases "m = Suc k")
        case True
        have "ys ! Suc k = p" using ysn[OF k] by simp
        then show ?thesis using m True by (simp add: R2 ym)
      next
        case False
        then have "m \<noteq> k" "Suc (Suc k) \<noteq> length xs" using km m by simp_all
        then show ?thesis using dll_last[OF d xne] m False by (simp add: R2 ysn[OF xm] ym)
      qed
    qed
    show "prev (hp' (ys ! 0)) = None"
    proof (cases k)
      case 0
      then have "ys ! 0 = xs ! Suc 0" by (simp add: ysn[OF x0] e_def)
      then show ?thesis using G2[OF k] 0 by (simp add: PP)
    next
      case (Suc j)
      then have "ys ! 0 = xs ! 0" by (simp add: ysn[OF x0])
      then show ?thesis using G2[OF x0] Suc dll_prev0[OF d xne] by simp
    qed
    show "nxt (hp' (ys ! (length ys - Suc 0))) = None"
    proof (cases "m = Suc k")
      case True
      have "ys ! Suc k = xs ! k" using ysn[OF k] by (simp add: p_def)
      then show ?thesis using G1[OF k0] True m by (simp add: ym N)
    next
      case False
      then have b: "m \<noteq> k" "Suc m \<noteq> k" using km by simp_all
      then have "ys ! m = xs ! m" using False by (simp add: ysn[OF xm])
      then show ?thesis using G1[OF xm] b False dll_nxt_idx[OF d xm] m by (simp add: ym)
    qed
  next
    fix i assume "Suc i < length ys"
    then have i: "Suc i < length xs" using len by simp
    then have i0: "i < length xs" by simp
    consider "Suc i < k" | "Suc i = k" | "i = k" | "i = Suc k" | "Suc k < i" by linarith
    then show "nxt (hp' (ys ! i)) = Some (ys ! Suc i)"
    proof cases
      case 1
      then have b: "i \<noteq> k" "i \<noteq> Suc k" "Suc i \<noteq> k" "Suc i \<noteq> Suc k" by simp_all
      have y: "ys ! i = xs ! i" "ys ! Suc i = xs ! Suc i" using b by (simp_all add: ysn[OF i0] ysn[OF i])
      show ?thesis using G1[OF i0] b dll_nxt[OF d i] by (simp add: y)
    next
      case 2
      then have b: "i \<noteq> k" "i \<noteq> Suc k" by simp_all
      have y: "ys ! i = xs ! i" using b by (simp add: ysn[OF i0])
      have y2: "ys ! Suc i = e" using ysn[OF i] 2 by simp
      have "nxt (hp' (xs ! i)) = Some e" using G1[OF i0] b(1) b(2) 2 by simp
      then show ?thesis by (simp add: y y2)
    next
      case 3
      have y: "ys ! i = xs ! Suc k" using ysn[OF i0] 3 by (simp add: e_def)
      have y2: "ys ! Suc i = p" using ysn[OF i] 3 by simp
      have "nxt (hp' (xs ! Suc k)) = Some p" using G1[OF k] by simp
      then show ?thesis by (simp add: y y2)
    next
      case 4
      then have ssk: "Suc (Suc k) < length xs" using i by simp
      have y: "ys ! i = xs ! k" using ysn[OF i0] 4 by (simp add: p_def)
      have y2: "ys ! Suc i = xs ! Suc (Suc k)" using ysn[OF i] 4 by simp
      have "nxt (hp' (xs ! k)) = Some (xs ! Suc (Suc k))" using G1[OF k0] ssk by (simp add: N)
      then show ?thesis by (simp add: y y2)
    next
      case 5
      then have b: "i \<noteq> k" "i \<noteq> Suc k" "Suc i \<noteq> k" "Suc i \<noteq> Suc k" by simp_all
      have y: "ys ! i = xs ! i" "ys ! Suc i = xs ! Suc i" using b by (simp_all add: ysn[OF i0] ysn[OF i])
      show ?thesis using G1[OF i0] b dll_nxt[OF d i] by (simp add: y)
    qed
    consider "Suc i < k" | "Suc i = k" | "i = k" | "i = Suc k" | "Suc k < i" by linarith
    then show "prev (hp' (ys ! Suc i)) = Some (ys ! i)"
    proof cases
      case 1
      then have b: "i \<noteq> k" "i \<noteq> Suc k" "Suc i \<noteq> k" "Suc i \<noteq> Suc k" "Suc i \<noteq> Suc (Suc k)" by simp_all
      have y: "ys ! i = xs ! i" "ys ! Suc i = xs ! Suc i" using b by (simp_all add: ysn[OF i0] ysn[OF i])
      show ?thesis using G2[OF i] b dll_prev[OF d i] by (simp add: y)
    next
      case 2
      then have b: "i \<noteq> k" "i \<noteq> Suc k" by simp_all
      have y: "ys ! i = xs ! i" using b by (simp add: ysn[OF i0])
      have y2: "ys ! Suc i = xs ! Suc k" using ysn[OF i] 2 by (simp add: e_def)
      have "PP = Some (xs ! i)" using 2[symmetric] by (simp add: PP)
      moreover have "prev (hp' (xs ! Suc k)) = PP" using G2[OF k] by simp
      ultimately show ?thesis by (simp add: y y2)
    next
      case 3
      have y: "ys ! i = e" using ysn[OF i0] 3 by simp
      have y2: "ys ! Suc i = xs ! k" using ysn[OF i] 3 by (simp add: p_def)
      have "prev (hp' (xs ! k)) = Some e" using G2[OF k0] by simp
      then show ?thesis by (simp add: y y2)
    next
      case 4
      then have ssk: "Suc (Suc k) < length xs" using i by simp
      have y: "ys ! i = p" using ysn[OF i0] 4 by simp
      have y2: "ys ! Suc i = xs ! Suc (Suc k)" using ysn[OF i] 4 by simp
      have "prev (hp' (xs ! Suc (Suc k))) = Some p" using G2[OF ssk] by simp
      then show ?thesis by (simp add: y y2)
    next
      case 5
      then have b: "i \<noteq> k" "i \<noteq> Suc k" "Suc i \<noteq> k" "Suc i \<noteq> Suc k" "Suc i \<noteq> Suc (Suc k)" by simp_all
      have y: "ys ! i = xs ! i" "ys ! Suc i = xs ! Suc i" using b by (simp_all add: ysn[OF i0] ysn[OF i])
      show ?thesis using G2[OF i] b dll_prev[OF d i] by (simp add: y)
    qed
  qed
  then show "dll (fst (snd (gui_linkedlist_moveup_gen root hp (Some (xs ! Suc k)))))
             (snd (snd (gui_linkedlist_moveup_gen root hp (Some (xs ! Suc k)))))
             (xs[k := xs ! Suc k, Suc k := xs ! k])"
    unfolding root'_def hp'_def ys_def e_def p_def .
  show "fst (gui_linkedlist_moveup_gen root hp (Some (xs ! Suc k))) = 1"
    using moveup_gen_root(3)[OF fi] by (simp add: e_def)
qed


lemma walk_from:
  assumes d: "dll r hp xs"
  shows "i + m = length xs \<Longrightarrow>
    walk hp (Suc m) (if i < length xs then Some (xs ! i) else None) = drop i xs"
proof (induction m arbitrary: i)
  case 0
  then show ?case by simp
next
  case (Suc m)
  then have i: "i < length xs" and s: "Suc i + m = length xs" by simp_all
  have "walk hp (Suc (Suc m)) (Some (xs ! i)) = xs ! i # walk hp (Suc m) (nxt (hp (xs ! i)))"
    by simp
  also have "nxt (hp (xs ! i)) = (if Suc i < length xs then Some (xs ! Suc i) else None)"
    using dll_nxt_idx[OF d i] i by auto
  also have "walk hp (Suc m) (if Suc i < length xs then Some (xs ! Suc i) else None) = drop (Suc i) xs"
    by (rule Suc.IH[OF s])
  finally show ?case using i by (simp add: Cons_nth_drop_Suc)
qed

lemma walk_dll:
  assumes d: "dll r hp xs"
  shows "walk hp (Suc (length xs)) (first r) = xs"
proof (cases "xs = []")
  case True
  then show ?thesis using d by (simp add: dll_Nil)
next
  case False
  then show ?thesis using walk_from[OF d, of 0 "length xs"] dll_first[OF d False] by simp
qed

lemma ll_step_dll:
  assumes d: "dll r hp xs" and ok: "ll_ok c (set xs)"
  shows "\<exists>ys. dll (fst (ll_step c (r, hp))) (snd (ll_step c (r, hp))) ys \<and>
           set ys = ll_members c (set xs) \<and>
           length ys + n_removed [c] = length xs + n_added [c]"
proof (cases c)
  case (Add e)
  then show ?thesis using dll_add[OF d, of e] ok by (intro exI[of _ "xs @ [e]"]) simp
next
  case (Remove p)
  show ?thesis
  proof (cases p)
    case None
    then show ?thesis using d Remove by (intro exI[of _ xs]) (simp add: gui_linkedlist_remove_gen_def)
  next
    case (Some e)
    then have "e \<in> set xs" using ok Remove by simp
    then obtain k where k: "k < length xs" "xs ! k = e" by (auto simp: in_set_conv_nth)
    have xs: "xs = take k xs @ e # drop (Suc k) xs" using id_take_nth_drop[OF k(1)] k(2) by simp
    have "distinct (take k xs @ e # drop (Suc k) xs)" using dll_distinct[OF d] xs by simp
    then have "set (take k xs @ drop (Suc k) xs) = set (take k xs @ e # drop (Suc k) xs) - {e}"
      by auto
    then have s: "set (take k xs @ drop (Suc k) xs) = set xs - {e}" using xs by simp
    show ?thesis using dll_remove[OF d k(1)] k s Remove Some
      by (intro exI[of _ "take k xs @ drop (Suc k) xs"]) simp
  qed
next
  case (MoveUp p)
  show ?thesis
  proof (cases p)
    case None
    then show ?thesis using d MoveUp by (intro exI[of _ xs]) (simp add: gui_linkedlist_moveup_gen_def)
  next
    case (Some e)
    then have "e \<in> set xs" using ok MoveUp by simp
    then obtain k where k: "k < length xs" "xs ! k = e" by (auto simp: in_set_conv_nth)
    then have xne: "xs \<noteq> []" by auto
    show ?thesis
    proof (cases k)
      case 0
      then have "first r = Some e" using dll_first[OF d xne] k by simp
      then show ?thesis using d MoveUp Some
        by (intro exI[of _ xs]) (simp add: gui_linkedlist_moveup_gen_def)
    next
      case (Suc j)
      then have j: "Suc j < length xs" "xs ! Suc j = e" using k by simp_all
      have "set (xs[j := xs ! Suc j, Suc j := xs ! j]) = set xs"
        using j(1) by (simp add: set_swap)
      then show ?thesis using dll_moveup(1)[OF d j(1)] j(2) MoveUp Some
        by (intro exI[of _ "xs[j := xs ! Suc j, Suc j := xs ! j]"]) simp
    qed
  qed
next
  case (MoveDown p)
  show ?thesis
  proof (cases p)
    case None
    then show ?thesis using d MoveDown by (intro exI[of _ xs]) (simp add: gui_linkedlist_movedown_gen_def)
  next
    case (Some e)
    then have "e \<in> set xs" using ok MoveDown by simp
    then obtain k where k: "k < length xs" "xs ! k = e" by (auto simp: in_set_conv_nth)
    then have xne: "xs \<noteq> []" by auto
    show ?thesis
    proof (cases "Suc k = length xs")
      case True
      then have "length xs - Suc 0 = k" by simp
      then have "last' r = Some e" using dll_last[OF d xne] k by simp
      then show ?thesis using d MoveDown Some
        by (intro exI[of _ xs]) (simp add: gui_linkedlist_movedown_gen_def)
    next
      case False
      then have j: "Suc k < length xs" using k by simp
      have "set (xs[k := xs ! Suc k, Suc k := xs ! k]) = set xs"
        using j by (simp add: set_swap)
      then show ?thesis using dll_movedown(1)[OF d j] k(2) MoveDown Some
        by (intro exI[of _ "xs[k := xs ! Suc k, Suc k := xs ! k]"]) simp
    qed
  qed
qed


lemma n_added_Cons: "n_added (c # cs) = n_added [c] + n_added cs"
  by (cases c) simp_all

lemma n_removed_Cons: "n_removed (c # cs) = n_removed [c] + n_removed cs"
proof (cases c)
  case (Remove p)
  then show ?thesis by (cases p) simp_all
qed simp_all

lemma ll_run_dll:
  "dll r hp xs \<Longrightarrow> ll_wf cs (set xs) \<Longrightarrow>
   \<exists>ys. dll (fst (ll_run cs (r, hp))) (snd (ll_run cs (r, hp))) ys \<and>
        length ys + n_removed cs = length xs + n_added cs"
proof (induction cs arbitrary: r hp xs)
  case Nil
  then show ?case by (intro exI[of _ xs]) simp
next
  case (Cons c cs)
  then have ok: "ll_ok c (set xs)" and wf: "ll_wf cs (ll_members c (set xs))" by simp_all
  from ll_step_dll[OF Cons.prems(1) ok] obtain ys where
    ys: "dll (fst (ll_step c (r, hp))) (snd (ll_step c (r, hp))) ys"
        "set ys = ll_members c (set xs)"
        "length ys + n_removed [c] = length xs + n_added [c]" by blast
  from Cons.IH[OF ys(1)] wf ys(2) obtain zs where
    zs: "dll (fst (ll_run cs (fst (ll_step c (r, hp)), snd (ll_step c (r, hp)))))
             (snd (ll_run cs (fst (ll_step c (r, hp)), snd (ll_step c (r, hp))))) zs"
        "length zs + n_removed cs = length ys + n_added cs" by auto
  have "length zs + n_removed (c # cs) = length xs + n_added (c # cs)"
    using zs(2) ys(3) by (simp add: n_added_Cons[of c cs] n_removed_Cons[of c cs])
  then show ?case using zs(1) by (intro exI[of _ zs]) simp
qed

lemma ll_wf_take: "ll_wf cs S \<Longrightarrow> ll_wf (take k cs) S"
proof (induction cs arbitrary: S k)
  case Nil
  then show ?case by simp
next
  case (Cons c cs)
  then show ?case by (cases k) simp_all
qed

lemma dll_empty_root: "dll empty_root hp []"
  by (simp add: dll_Nil empty_root_def)

lemma dll_interior:
  assumes d: "dll r hp xs" and a: "a \<in> set xs"
  shows "nxt (hp a) = Some b \<Longrightarrow> prev (hp b) = Some a"
    and "prev (hp a) = Some b \<Longrightarrow> nxt (hp b) = Some a"
proof -
  from a obtain i where i: "i < length xs" "xs ! i = a" by (auto simp: in_set_conv_nth)
  show "prev (hp b) = Some a" if "nxt (hp a) = Some b"
  proof (cases "Suc i = length xs")
    case True
    then show ?thesis using dll_nxt_idx[OF d i(1)] i(2) that by simp
  next
    case False
    then have s: "Suc i < length xs" using i by simp
    then have "b = xs ! Suc i" using dll_nxt[OF d s] i(2) that by simp
    then show ?thesis using dll_prev[OF d s] i(2) by simp
  qed
  show "nxt (hp b) = Some a" if "prev (hp a) = Some b"
  proof (cases i)
    case 0
    then show ?thesis using dll_prev_idx[OF d i(1)] i(2) that by simp
  next
    case (Suc j)
    then have s: "Suc j < length xs" using i by simp
    then have "b = xs ! j" using dll_prev[OF d s] i(2) that Suc by simp
    then show ?thesis using dll_nxt[OF d s] i(2) Suc by simp
  qed
qed

text \<open>
  C2. With the caller's contract made explicit: after every prefix of a sequence of add,
  remove, move-up and move-down calls on one sibling list that starts empty, in which
  every call respects the contract \<open>ll_wf\<close> (an element is added only while it is not linked, and removed or
  moved only while it is linked), the list is doubly consistent: the first element has a null \<open>prev\<close>, the last a null
  \<open>next\<close>, the neighbours of every linked node point back at it, and walking forward
  from \<open>first\<close> via \<open>next\<close> visits exactly (elements added) minus (elements removed)
  nodes and ends at \<open>last\<close>.
\<close>

theorem list_integrity:
  assumes wf: "ll_wf cs {}"
    and k: "k \<le> length cs"
    and run: "ll_run (take k cs) (empty_root, hp0) = (root, hp)"
  shows "(\<forall>a. first root = Some a \<longrightarrow> prev (hp a) = None) \<and>
         (\<forall>a. last' root = Some a \<longrightarrow> nxt (hp a) = None) \<and>
         (\<forall>a b. a \<in> set (walk hp (Suc (n_added (take k cs) - n_removed (take k cs))) (first root)) \<longrightarrow>
             (nxt (hp a) = Some b \<longrightarrow> prev (hp b) = Some a) \<and>
             (prev (hp a) = Some b \<longrightarrow> nxt (hp b) = Some a)) \<and>
         n_removed (take k cs) \<le> n_added (take k cs) \<and>
         length (walk hp (Suc (n_added (take k cs) - n_removed (take k cs))) (first root)) =
           n_added (take k cs) - n_removed (take k cs) \<and>
         last' root =
           (case walk hp (Suc (n_added (take k cs) - n_removed (take k cs))) (first root) of
              [] \<Rightarrow> None | w # ws \<Rightarrow> Some (List.last (w # ws)))"
proof -
  have "ll_wf (take k cs) (set [])" using ll_wf_take[OF wf] by simp
  from ll_run_dll[OF dll_empty_root this, of hp0] run obtain ys where
    d: "dll root hp ys" and len: "length ys + n_removed (take k cs) = n_added (take k cs)"
    by auto
  have n: "n_added (take k cs) - n_removed (take k cs) = length ys" using len by simp
  have w: "walk hp (Suc (n_added (take k cs) - n_removed (take k cs))) (first root) = ys"
    unfolding n by (rule walk_dll[OF d])
  have 1: "\<forall>a. first root = Some a \<longrightarrow> prev (hp a) = None"
  proof (cases "ys = []")
    case True
    then show ?thesis using d by (simp add: dll_Nil)
  next
    case False
    then show ?thesis using dll_first[OF d False] dll_prev0[OF d False] by simp
  qed
  have 2: "\<forall>a. last' root = Some a \<longrightarrow> nxt (hp a) = None"
  proof (cases "ys = []")
    case True
    then show ?thesis using d by (simp add: dll_Nil)
  next
    case False
    then show ?thesis using dll_last[OF d False] dll_nxt_last[OF d False] by simp
  qed
  have 3: "\<forall>a b. a \<in> set ys \<longrightarrow>
             (nxt (hp a) = Some b \<longrightarrow> prev (hp b) = Some a) \<and>
             (prev (hp a) = Some b \<longrightarrow> nxt (hp b) = Some a)"
    using dll_interior[OF d] by blast
  have 4: "last' root = (case ys of [] \<Rightarrow> None | w # ws \<Rightarrow> Some (List.last (w # ws)))"
  proof (cases ys)
    case Nil
    then show ?thesis using d by (simp add: dll_Nil)
  next
    case (Cons w ws)
    then have "ys \<noteq> []" by simp
    from dll_last[OF d this] show ?thesis using Cons by (simp add: last_conv_nth)
  qed
  have le: "n_removed (take k cs) \<le> n_added (take k cs)" using len by simp
  have n': "length ys = n_added (take k cs) - n_removed (take k cs)" using n by simp
  show ?thesis unfolding w using 1 2 3 4 le n' by blast
qed

theorem list_integrity_witness:
  "ll_wf list_integrity_ops {} \<and> 6 \<le> length list_integrity_ops \<and>
   length (walk (snd (ll_run (take 6 list_integrity_ops)
                    (empty_root, \<lambda>a. \<lparr>prev = None, nxt = None\<rparr>)))
             (Suc (n_added (take 6 list_integrity_ops) - n_removed (take 6 list_integrity_ops)))
             (first (fst (ll_run (take 6 list_integrity_ops)
                    (empty_root, \<lambda>a. \<lparr>prev = None, nxt = None\<rparr>))))) = 2"
proof -
  have wf: "ll_wf list_integrity_ops {}" by (simp add: list_integrity_ops_def)
  have k: "6 \<le> length list_integrity_ops" by (simp add: list_integrity_ops_def)
  have n: "n_added (take 6 list_integrity_ops) - n_removed (take 6 list_integrity_ops) = 2"
    by (simp add: list_integrity_ops_def)
  have run: "ll_run (take 6 list_integrity_ops) (empty_root, \<lambda>a. \<lparr>prev = None, nxt = None\<rparr>) =
      (fst (ll_run (take 6 list_integrity_ops) (empty_root, \<lambda>a. \<lparr>prev = None, nxt = None\<rparr>)),
       snd (ll_run (take 6 list_integrity_ops) (empty_root, \<lambda>a. \<lparr>prev = None, nxt = None\<rparr>)))"
    by simp
  note L = list_integrity[OF wf k run, THEN conjunct2, THEN conjunct2, THEN conjunct2,
      THEN conjunct2, THEN conjunct1]
  show ?thesis using wf k L[unfolded n] unfolding n by blast
qed



text \<open>
  Without the contract the property fails: adding an element that is already linked makes
  it its own predecessor and successor, so the first element has a non-null \<open>prev\<close> and
  the last a non-null \<open>next\<close>.
\<close>

theorem list_integrity_needs_contract:
  "\<not> ll_wf [Add 1, Add 1] {} \<and>
   first (fst (ll_run [Add 1, Add 1] (empty_root, \<lambda>a. \<lparr>prev = None, nxt = None\<rparr>))) = Some 1 \<and>
   prev (snd (ll_run [Add 1, Add 1] (empty_root, \<lambda>a. \<lparr>prev = None, nxt = None\<rparr>)) 1) = Some 1 \<and>
   last' (fst (ll_run [Add 1, Add 1] (empty_root, \<lambda>a. \<lparr>prev = None, nxt = None\<rparr>))) = Some 1 \<and>
   nxt (snd (ll_run [Add 1, Add 1] (empty_root, \<lambda>a. \<lparr>prev = None, nxt = None\<rparr>)) 1) = Some 1"
  by (simp add: gui_linkedlist_add_gen_def empty_root_def Let_def)

subsection \<open>Return value of move-to-top\<close>

lemmas wdefs = guii_widget_isdialogbase_def guii_widget_allowchildren_def guii_widget_getcoreflag_def
  guii_widget_getflag_def gui_linkedlist_widgetmoveup_def gui_linkedlist_widgetmovedown_def with_list_def

text \<open>
  C3. Move-to-top and move-to-bottom are documented to return the number of single moves
  made, 0 when none was possible. \<open>gui_linkedlist_widgetmovetotop\<close> does not: its counter
  starts from whatever the uninitialised variable holds. On the list [1, 2] of two plain
  widgets with z-indices 0 and 5, moving 2 to the top is blocked at the first step (5 is
  greater than 0), nothing moves, and the value returned is the low byte of that initial
  content instead of 0.
\<close>

theorem movetotop_returns_uninitialised_counter:
  "gui_linkedlist_widgetmovetotop (Suc n) cnt0 movetotop_state 2 = Some (ucast cnt0, movetotop_state)"
  by (simp add: gui_linkedlist_widgetmovetotop_def movetotop_state_def gui_init_def zero_handle_def wdefs)

subsection \<open>Group order of a sibling list\<close>

text \<open>
  C1. The sibling list is meant to hold plain widgets first, then widgets that allow
  children, then dialog bases. Linking widget 1 (a dialog base that does not allow
  children) and then widget 2 (a container) under the desktop leaves the list as [1, 2]:
  the container, settling upwards, only passes predecessors that allow children, so it
  stays behind the dialog base; a dialog-base node then precedes a node that is not one.
\<close>

theorem dialog_base_precedes_container:
  "\<exists>s1 s2. gui_linkedlist_widgetadd 3 c1 order_state (Some 0) 1 = Some s1 \<and>
           gui_linkedlist_widgetadd 3 c2 s1 (Some 0) 2 = Some s2 \<and>
           walk (heap s2) 3 (first (root_list (heap s2 0))) = [1, 2] \<and>
           guii_widget_isdialogbase s2 1 \<and> \<not> guii_widget_isdialogbase s2 2"
  by (simp add: gui_linkedlist_widgetadd_def gui_linkedlist_widgetmovetotop_def
      gui_linkedlist_widgetmovetobottom_def gui_linkedlist_add_gen_def order_state_def gui_init_def
      zero_handle_def wdefs gui_flag_defs Let_def numeral_3_eq_3)




theorem dialog_base_precedes_container_witness:
  "\<exists>s1 s2. gui_linkedlist_widgetadd 3 0 order_state (Some 0) 1 = Some s1 \<and>
           gui_linkedlist_widgetadd 3 0 s1 (Some 0) 2 = Some s2 \<and>
           walk (heap s2) 3 (first (root_list (heap s2 0))) = [1, 2] \<and>
           guii_widget_isdialogbase s2 1 \<and> \<not> guii_widget_isdialogbase s2 2"
  using dialog_base_precedes_container [of 0 0] .

subsection \<open>Invalidation\<close>

lemma skel_fields:
  "parent (heap (skel s) a) = parent (heap s a)"
  "nxt (heap (skel s) a) = nxt (heap s a)"
  "prev (heap (skel s) a) = prev (heap s a)"
  "root_list (heap (skel s) a) = root_list (heap s a)"
  "widget (heap (skel s) a) = widget (heap s a)"
  "transparency (heap (skel s) a) = transparency (heap s a)"
  "h_id (heap (skel s) a) = h_id (heap s a)"
  "h_text (heap (skel s) a) = h_text (heap s a)"
  "timer (heap (skel s) a) = timer (heap s a)"
  "colors (heap (skel s) a) = colors (heap s a)"
  "Root (skel s) = Root s" "desktop (skel s) = desktop s"
  "GUI_CFG_OS (skel s) = GUI_CFG_OS s" "GUI_CFG_USE_TRANSPARENCY (skel s) = GUI_CFG_USE_TRANSPARENCY s"
  "ddlist (skel s) = ddlist s" "dheap (skel s) = dheap s" "dmem (skel s) = dmem s" "mem (skel s) = mem s"
  "ActiveWidget (skel s) = ActiveWidget s" "ActiveWidgetPrev (skel s) = ActiveWidgetPrev s"
  "WindowActive (skel s) = WindowActive s" "lvl (skel s) = lvl s"
  "freed (skel s) = freed s" "timers_removed (skel s) = timers_removed s"
  by (simp_all add: skel_def)

lemma skel_eqD:
  assumes "skel s' = skel s"
  shows "parent (heap s' a) = parent (heap s a)"
    "nxt (heap s' a) = nxt (heap s a)"
    "prev (heap s' a) = prev (heap s a)"
    "root_list (heap s' a) = root_list (heap s a)"
    "widget (heap s' a) = widget (heap s a)"
    "transparency (heap s' a) = transparency (heap s a)"
    "h_id (heap s' a) = h_id (heap s a)"
    "Root s' = Root s" "desktop s' = desktop s"
    "GUI_CFG_OS s' = GUI_CFG_OS s" "GUI_CFG_USE_TRANSPARENCY s' = GUI_CFG_USE_TRANSPARENCY s"
    "ddlist s' = ddlist s" "dheap s' = dheap s" "dmem s' = dmem s" "mem s' = mem s"
    "ActiveWidget s' = ActiveWidget s" "ActiveWidgetPrev s' = ActiveWidgetPrev s"
    "WindowActive s' = WindowActive s" "lvl s' = lvl s"
  using skel_fields[of s'] skel_fields[of s] assms by metis+

lemma skel_simps [simp]:
  "skel (guii_widget_setflag s h f) = skel s"
  "skel (guii_widget_clrflag s h f) = skel s"
  "skel (mbox_putnow s m) = skel s"
  "skel (notify e s h c) = skel s"
  "skel (snd (guii_widget_callback e s h c p r)) = skel s"
  "skel (set_clipping_region e s h) = skel s"
  "skel (s\<lparr>Flags := F\<rparr>) = skel s"
  "skel (s\<lparr>FocusedWidget := fw\<rparr>) = skel s"
  "skel (s\<lparr>FocusedWidgetPrev := fw\<rparr>) = skel s"
  by (auto simp: skel_def guii_widget_setflag_def guii_widget_clrflag_def mbox_putnow_def notify_def
      guii_widget_callback_def set_clipping_region_def Let_def fun_eq_iff)

lemma redraw_grown_refl [simp]: "redraw_grown s s"
  by (simp add: redraw_grown_def)

lemma or_redraw_idem: "(x OR GUI_FLAG_REDRAW) OR GUI_FLAG_REDRAW = x OR (GUI_FLAG_REDRAW :: u32)"
  by (simp add: or.assoc)

lemma redraw_grown_trans:
  assumes "redraw_grown s s1" "redraw_grown s1 s2"
  shows "redraw_grown s s2"
proof -
  have h: "flags (heap s2 a) = flags (heap s a) \<or> flags (heap s2 a) = flags (heap s a) OR GUI_FLAG_REDRAW" for a
    using assms unfolding redraw_grown_def by (metis or_redraw_idem)
  have f: "Flags s2 = Flags s \<or> Flags s2 = Flags s OR GUI_FLAG_REDRAW"
    using assms unfolding redraw_grown_def by (metis or_redraw_idem)
  show ?thesis using assms h f unfolding redraw_grown_def by auto
qed

lemma redraw_grown_setflag [simp]: "redraw_grown s (guii_widget_setflag s h GUI_FLAG_REDRAW)"
  by (simp add: redraw_grown_def) (simp add: guii_widget_setflag_def)

lemma redraw_grown_Flags [simp]: "redraw_grown s (s\<lparr>Flags := Flags s OR GUI_FLAG_REDRAW\<rparr>)"
  by (simp add: redraw_grown_def)

lemma redraw_grown_clip [simp]: "redraw_grown s (set_clipping_region e s h)"
  by (simp add: redraw_grown_def) (simp add: set_clipping_region_def Let_def)

lemma redraw_grown_mbox [simp]: "redraw_grown s (mbox_putnow s m)"
  by (simp add: redraw_grown_def) (simp add: mbox_putnow_def)

lemma invalidate_inner_grown:
  "invalidate_inner n e s r p = Some s' \<Longrightarrow> redraw_grown s s'"
proof (induction n arbitrary: s p)
  case 0
  then show ?case by simp
next
  case (Suc n)
  show ?case
  proof (cases p)
    case None
    then show ?thesis using Suc.prems by simp
  next
    case (Some b)
    show ?thesis
    proof (cases "guii_widget_getflag s b GUI_FLAG_REDRAW \<noteq> 0 \<or> \<not> GUI_RECT_MATCH r (visible e b)")
      case True
      then show ?thesis using Suc.prems Some Suc.IH[of s] by (simp del: de_Morgan_disj)
    next
      case False
      then have "invalidate_inner n e (guii_widget_setflag s b GUI_FLAG_REDRAW) r
          (gui_linkedlist_widgetgetnext (guii_widget_setflag s b GUI_FLAG_REDRAW) None (Some b)) = Some s'"
        using Suc.prems Some by (simp add: Let_def)
      from Suc.IH[OF this] show ?thesis
        using redraw_grown_trans[OF redraw_grown_setflag] by blast
    qed
  qed
qed

lemma invalidate_outer_grown:
  "invalidate_outer n e s p = Some s' \<Longrightarrow> redraw_grown s s'"
proof (induction n arbitrary: s p)
  case 0
  then show ?case by simp
next
  case (Suc n)
  show ?case
  proof (cases p)
    case None
    then show ?thesis using Suc.prems by simp
  next
    case (Some a)
    then obtain s1 where
      1: "invalidate_inner n e s (visible e a) (gui_linkedlist_widgetgetnext s None (Some a)) = Some s1"
      and 2: "invalidate_outer n e s1 (gui_linkedlist_widgetgetnext s1 None (Some a)) = Some s'"
      using Suc.prems by (auto split: option.splits)
    show ?thesis using redraw_grown_trans[OF invalidate_inner_grown[OF 1] Suc.IH[OF 2]] .
  qed
qed

lemma inv_mark_grown [simp]: "redraw_grown s (inv_mark e s h c)"
proof -
  let ?s1 = "guii_widget_setflag s h GUI_FLAG_REDRAW"
  let ?s2 = "?s1\<lparr>Flags := Flags ?s1 OR GUI_FLAG_REDRAW\<rparr>"
  have 2: "redraw_grown s ?s2" by (rule redraw_grown_trans[OF redraw_grown_setflag redraw_grown_Flags])
  have 3: "redraw_grown s (set_clipping_region e ?s2 h)"
    by (rule redraw_grown_trans[OF 2 redraw_grown_clip])
  show ?thesis using 2 3 by (simp add: inv_mark_def Let_def)
qed

lemma invalidate_widget_Suc:
  "invalidate_widget (Suc n) e s (Some h) c =
    (if guii_widget_getflag s h GUI_FLAG_IGNORE_INVALIDATE \<noteq> 0 then Some (0, s)
     else
       case (if GUI_CFG_USE_TRANSPARENCY (inv_mark e s h c) \<and> guii_widget_istransparent (inv_mark e s h c) h
             then invalidate_widget n e (inv_mark e s h c) (parent (heap (inv_mark e s h c) h)) 0
             else Some (0, inv_mark e s h c)) of
         None \<Rightarrow> None
       | Some (r4, s4) \<Rightarrow>
           (case invalidate_outer n e s4 (Some h) of
              None \<Rightarrow> None
            | Some s5 \<Rightarrow>
                (case (if parent (heap s5 h) \<noteq> None \<and>
                          \<not> gui_linkedlist_iswidgetlast s5 (parent (heap s5 h))
                       then invalidate_widget n e s5 (parent (heap s5 h)) 0
                       else Some (0, s5)) of
                   None \<Rightarrow> None
                 | Some (r6, s6) \<Rightarrow>
                     (case (if GUI_CFG_USE_TRANSPARENCY s6
                            then invalidate_parents n e s6 (parent (heap s6 h))
                            else Some s6) of
                        None \<Rightarrow> None
                      | Some s7 \<Rightarrow> Some (1, s7)))))"
  by (simp add: inv_mark_def Let_def)

lemma invalidate_widget_SucE:
  assumes "invalidate_widget (Suc n) e s (Some h) c = Some (r, s')"
    and "guii_widget_getflag s h GUI_FLAG_IGNORE_INVALIDATE = 0"
  obtains r4 s4 s5 r6 s6 where
    "(if GUI_CFG_USE_TRANSPARENCY (inv_mark e s h c) \<and> guii_widget_istransparent (inv_mark e s h c) h
      then invalidate_widget n e (inv_mark e s h c) (parent (heap (inv_mark e s h c) h)) 0
      else Some (0, inv_mark e s h c)) = Some (r4, s4)"
    "invalidate_outer n e s4 (Some h) = Some s5"
    "(if parent (heap s5 h) \<noteq> None \<and> \<not> gui_linkedlist_iswidgetlast s5 (parent (heap s5 h))
      then invalidate_widget n e s5 (parent (heap s5 h)) 0 else Some (0, s5)) = Some (r6, s6)"
    "(if GUI_CFG_USE_TRANSPARENCY s6 then invalidate_parents n e s6 (parent (heap s6 h))
      else Some s6) = Some s'"
    "r = 1"
  using assms unfolding invalidate_widget_Suc
  by (simp split: option.splits prod.splits)

lemma invalidate_widget_grown_aux:
  "(\<forall>s hp c r s'. invalidate_widget n e s hp c = Some (r, s') \<longrightarrow> redraw_grown s s') \<and>
   (\<forall>s hp s'. invalidate_parents n e s hp = Some s' \<longrightarrow> redraw_grown s s')"
proof (induction n)
  case 0
  then show ?case by simp
next
  case (Suc n)
  then have IHw: "\<And>s hp c r s'. invalidate_widget n e s hp c = Some (r, s') \<Longrightarrow> redraw_grown s s'"
    and IHp: "\<And>s hp s'. invalidate_parents n e s hp = Some s' \<Longrightarrow> redraw_grown s s'" by blast+
  have W: "redraw_grown s s'" if w: "invalidate_widget (Suc n) e s hp c = Some (r, s')" for s hp c r s'
  proof (cases hp)
    case None
    then show ?thesis using w by simp
  next
    case (Some h)
    show ?thesis
    proof (cases "guii_widget_getflag s h GUI_FLAG_IGNORE_INVALIDATE = 0")
      case False
      then show ?thesis using w Some by simp
    next
      case True
      from w[unfolded Some] True obtain r4 s4 s5 r6 s6 where
        a: "(if GUI_CFG_USE_TRANSPARENCY (inv_mark e s h c) \<and> guii_widget_istransparent (inv_mark e s h c) h
          then invalidate_widget n e (inv_mark e s h c) (parent (heap (inv_mark e s h c) h)) 0
          else Some (0, inv_mark e s h c)) = Some (r4, s4)"
        and b: "invalidate_outer n e s4 (Some h) = Some s5"
        and c: "(if parent (heap s5 h) \<noteq> None \<and> \<not> gui_linkedlist_iswidgetlast s5 (parent (heap s5 h))
          then invalidate_widget n e s5 (parent (heap s5 h)) 0 else Some (0, s5)) = Some (r6, s6)"
        and d: "(if GUI_CFG_USE_TRANSPARENCY s6 then invalidate_parents n e s6 (parent (heap s6 h))
          else Some s6) = Some s'"
        by (rule invalidate_widget_SucE)
      have 4: "redraw_grown (inv_mark e s h c) s4" using a IHw by (auto split: if_splits)
      have 5: "redraw_grown s4 s5" using b by (rule invalidate_outer_grown)
      have 6: "redraw_grown s5 s6" using c IHw by (auto split: if_splits)
      have 7: "redraw_grown s6 s'" using d IHp by (auto split: if_splits)
      show ?thesis
        using redraw_grown_trans[OF inv_mark_grown redraw_grown_trans[OF 4 redraw_grown_trans[OF 5 redraw_grown_trans[OF 6 7]]]] .
    qed
  qed
  have P: "redraw_grown s s'" if p: "invalidate_parents (Suc n) e s hp = Some s'" for s hp s'
  proof (cases hp)
    case None
    then show ?thesis using p by simp
  next
    case (Some h)
    then show ?thesis using p IHw IHp by (auto split: if_splits)
  qed
  show ?case using W P by blast
qed

lemma invalidate_widget_grown:
  "invalidate_widget n e s hp c = Some (r, s') \<Longrightarrow> redraw_grown s s'"
  using invalidate_widget_grown_aux by blast

lemma invalidate_parents_grown:
  "invalidate_parents n e s hp = Some s' \<Longrightarrow> redraw_grown s s'"
  using invalidate_widget_grown_aux by blast

lemma guii_widget_invalidate_grown:
  assumes "guii_widget_invalidate n e s h = Some (r, s')"
  shows "redraw_grown s s'"
proof -
  from assms obtain s1 r2 s2 where
    1: "invalidate_widget n e s (Some h) 1 = Some (r, s1)"
    and 2: "(if (guii_widget_getflag s1 h GUI_FLAG_WIDGET_INVALIDATE_PARENT \<noteq> 0 \<or>
                    guii_widget_getcoreflag s1 h GUI_FLAG_WIDGET_INVALIDATE_PARENT \<noteq> 0 \<or>
                    (GUI_CFG_USE_TRANSPARENCY s1 \<and> guii_widget_istransparent s1 h)) \<and>
                   parent (heap s1 h) \<noteq> None
                then invalidate_widget n e s1 (parent (heap s1 h)) 0
                else Some (0, s1)) = Some (r2, s2)"
    and 3: "s' = (if GUI_CFG_OS s2 then mbox_putnow s2 GUI_SYS_MBOX_TYPE_INVALIDATE else s2)"
    unfolding guii_widget_invalidate_def by (simp split: option.splits prod.splits)
  have a: "redraw_grown s s1" using 1 by (rule invalidate_widget_grown)
  have b: "redraw_grown s1 s2" using 2 invalidate_widget_grown by (auto split: if_splits)
  have c: "redraw_grown s2 s'" using 3 by simp
  show ?thesis using redraw_grown_trans[OF a redraw_grown_trans[OF b c]] .
qed

lemma guii_widget_invalidatewithparent_grown:
  assumes "guii_widget_invalidatewithparent n e s h = Some (r, s')"
  shows "redraw_grown s s'"
proof -
  from assms obtain r1 s1 r2 where
    1: "invalidate_widget n e s (Some h) 1 = Some (r1, s1)"
    and 2: "(if parent (heap s1 h) \<noteq> None then invalidate_widget n e s1 (parent (heap s1 h)) 0
             else Some (0, s1)) = Some (r2, s')"
    unfolding guii_widget_invalidatewithparent_def by (simp split: option.splits prod.splits)
  have a: "redraw_grown s s1" using 1 by (rule invalidate_widget_grown)
  have b: "redraw_grown s1 s'" using 2 invalidate_widget_grown by (auto split: if_splits)
  show ?thesis using redraw_grown_trans[OF a b] .
qed

lemma rk_simps [simp]: "rk f None = 0" "rk f (Some a) = Suc (f a)"
  by (simp_all add: rk_def)

lemma ranked_skel:
  assumes "skel s' = skel s"
  shows "ranked s' up dn L = ranked s up dn L"
  unfolding ranked_def skel_eqD(1)[OF assms] skel_eqD(2)[OF assms] skel_eqD(4)[OF assms] ..

lemma redraw_grown_skel: "redraw_grown s s' \<Longrightarrow> skel s' = skel s"
  by (simp add: redraw_grown_def)

lemma ranked_grown: "redraw_grown s s' \<Longrightarrow> ranked s up dn L \<Longrightarrow> ranked s' up dn L"
  using ranked_skel[of s' s] by (simp add: redraw_grown_def)

lemma ranked_nxt: "ranked s up dn L \<Longrightarrow> rk dn (nxt (heap s a)) < rk dn (Some a)"
  unfolding ranked_def by (cases "nxt (heap s a)") auto

lemma ranked_first: "ranked s up dn L \<Longrightarrow> rk dn (first (root_list (heap s a))) < rk dn (Some a)"
  unfolding ranked_def by (cases "first (root_list (heap s a))") auto

lemma ranked_parent: "ranked s up dn L \<Longrightarrow> rk up (parent (heap s a)) < rk up (Some a)"
  unfolding ranked_def by (cases "parent (heap s a)") auto

lemma ranked_dn_le: "ranked s up dn L \<Longrightarrow> rk dn p \<le> L"
  unfolding ranked_def by (cases p) (auto simp: Suc_le_eq)

lemma ranked_up_le: "ranked s up dn L \<Longrightarrow> rk up p \<le> L"
  unfolding ranked_def by (cases p) (auto simp: Suc_le_eq)

lemma widgetgetnext_Some [simp]: "gui_linkedlist_widgetgetnext s p (Some a) = nxt (heap s a)"
  by (simp add: gui_linkedlist_widgetgetnext_def)

lemma widgetgetnext_None [simp]:
  "gui_linkedlist_widgetgetnext s (Some p) None = first (root_list (heap s p))"
  "gui_linkedlist_widgetgetnext s None None = first (Root s)"
  by (simp_all add: gui_linkedlist_widgetgetnext_def)

lemma nxt_setflag [simp]:
  "nxt (heap (guii_widget_setflag s h f) a) = nxt (heap s a)"
  "parent (heap (guii_widget_setflag s h f) a) = parent (heap s a)"
  "nxt (heap (guii_widget_clrflag s h f) a) = nxt (heap s a)"
  "parent (heap (guii_widget_clrflag s h f) a) = parent (heap s a)"
  by (simp_all add: guii_widget_setflag_def guii_widget_clrflag_def)

lemma invalidate_inner_terminates:
  "ranked s up dn L \<Longrightarrow> rk dn p < n \<Longrightarrow> \<exists>s'. invalidate_inner n e s r p = Some s'"
proof (induction n arbitrary: s p)
  case 0
  then show ?case by simp
next
  case (Suc n)
  show ?case
  proof (cases p)
    case None
    then show ?thesis by simp
  next
    case (Some b)
    have lt: "rk dn (nxt (heap s b)) < n" using ranked_nxt[OF Suc.prems(1), of b] Suc.prems(2) Some by simp
    have r': "ranked (guii_widget_setflag s b GUI_FLAG_REDRAW) up dn L"
      using ranked_skel[of "guii_widget_setflag s b GUI_FLAG_REDRAW" s] Suc.prems(1) by simp
    show ?thesis using Some Suc.IH[OF Suc.prems(1) lt] Suc.IH[OF r' lt] by (simp add: Let_def)
  qed
qed

lemma invalidate_outer_terminates:
  "ranked s up dn L \<Longrightarrow> rk dn p + L < n \<Longrightarrow> \<exists>s'. invalidate_outer n e s p = Some s'"
proof (induction n arbitrary: s p)
  case 0
  then show ?case by simp
next
  case (Suc n)
  show ?case
  proof (cases p)
    case None
    then show ?thesis by simp
  next
    case (Some a)
    have lt: "rk dn (nxt (heap s a)) < rk dn (Some a)" by (rule ranked_nxt[OF Suc.prems(1)])
    then have "rk dn (nxt (heap s a)) < n" using Suc.prems(2) Some by simp
    from invalidate_inner_terminates[OF Suc.prems(1) this] obtain s1 where
      1: "invalidate_inner n e s (visible e a) (nxt (heap s a)) = Some s1" by blast
    have g: "redraw_grown s s1" by (rule invalidate_inner_grown[OF 1])
    have r1: "ranked s1 up dn L" by (rule ranked_grown[OF g Suc.prems(1)])
    have "nxt (heap s1 a) = nxt (heap s a)" by (rule skel_eqD(2)[OF redraw_grown_skel[OF g]])
    then have "rk dn (nxt (heap s1 a)) + L < n" using lt Suc.prems(2) Some by simp
    from Suc.IH[OF r1 this] show ?thesis using Some 1 by simp
  qed
qed

lemma invalidate_widget_terminates_aux:
  "(\<forall>s hp c. ranked s up dn L \<longrightarrow> 2 * L + 2 + 2 * rk up hp < n \<longrightarrow>
       (\<exists>r s'. invalidate_widget n e s hp c = Some (r, s'))) \<and>
   (\<forall>s hp. ranked s up dn L \<longrightarrow> 2 * L + 3 + 2 * rk up hp < n \<longrightarrow>
       (\<exists>s'. invalidate_parents n e s hp = Some s'))"
proof (induction n)
  case 0
  then show ?case by simp
next
  case (Suc n)
  then have IHw: "\<And>s hp c. ranked s up dn L \<Longrightarrow> 2 * L + 2 + 2 * rk up hp < n \<Longrightarrow>
       \<exists>r s'. invalidate_widget n e s hp c = Some (r, s')"
    and IHp: "\<And>s hp. ranked s up dn L \<Longrightarrow> 2 * L + 3 + 2 * rk up hp < n \<Longrightarrow>
       \<exists>s'. invalidate_parents n e s hp = Some s'" by blast+
  have W: "\<exists>r s'. invalidate_widget (Suc n) e s hp c = Some (r, s')"
    if rs: "ranked s up dn L" and b: "2 * L + 2 + 2 * rk up hp < Suc n" for s hp c
  proof (cases hp)
    case None
    then show ?thesis by simp
  next
    case (Some h)
    show ?thesis
    proof (cases "guii_widget_getflag s h GUI_FLAG_IGNORE_INVALIDATE = 0")
      case False
      then show ?thesis using Some by simp
    next
      case True
      let ?s3 = "inv_mark e s h c"
      have r3: "ranked ?s3 up dn L" by (rule ranked_grown[OF inv_mark_grown rs])
      have pb: "\<And>t. ranked t up dn L \<Longrightarrow> 2 * L + 3 + 2 * rk up (parent (heap t h)) < n"
      proof -
        fix t assume "ranked t up dn L"
        from ranked_parent[OF this, of h] show "2 * L + 3 + 2 * rk up (parent (heap t h)) < n"
          using b Some by simp
      qed
      have pb': "\<And>t. ranked t up dn L \<Longrightarrow> 2 * L + 2 + 2 * rk up (parent (heap t h)) < n"
      proof -
        fix t assume "ranked t up dn L"
        from pb[OF this] show "2 * L + 2 + 2 * rk up (parent (heap t h)) < n" by simp
      qed
      obtain r4 s4 where 4: "(if GUI_CFG_USE_TRANSPARENCY ?s3 \<and> guii_widget_istransparent ?s3 h
          then invalidate_widget n e ?s3 (parent (heap ?s3 h)) 0 else Some (0, ?s3)) = Some (r4, s4)"
        using IHw[OF r3 pb'[OF r3], of 0] by (cases "GUI_CFG_USE_TRANSPARENCY ?s3 \<and> guii_widget_istransparent ?s3 h") auto
      have g4: "redraw_grown ?s3 s4" using 4 invalidate_widget_grown by (auto split: if_splits)
      have r4: "ranked s4 up dn L" by (rule ranked_grown[OF g4 r3])
      have "rk dn (Some h) + L < n" using ranked_dn_le[OF rs, of "Some h"] b by simp
      from invalidate_outer_terminates[OF r4 this] obtain s5 where
        5: "invalidate_outer n e s4 (Some h) = Some s5" by blast
      have r5: "ranked s5 up dn L" by (rule ranked_grown[OF invalidate_outer_grown[OF 5] r4])
      obtain r6 s6 where 6: "(if parent (heap s5 h) \<noteq> None \<and>
          \<not> gui_linkedlist_iswidgetlast s5 (parent (heap s5 h))
          then invalidate_widget n e s5 (parent (heap s5 h)) 0 else Some (0, s5)) = Some (r6, s6)"
        using IHw[OF r5 pb'[OF r5], of 0]
        by (cases "parent (heap s5 h) \<noteq> None \<and> \<not> gui_linkedlist_iswidgetlast s5 (parent (heap s5 h))") auto
      have g6: "redraw_grown s5 s6" using 6 invalidate_widget_grown by (auto split: if_splits)
      have r6: "ranked s6 up dn L" by (rule ranked_grown[OF g6 r5])
      obtain s7 where 7: "(if GUI_CFG_USE_TRANSPARENCY s6
          then invalidate_parents n e s6 (parent (heap s6 h)) else Some s6) = Some s7"
        using IHp[OF r6 pb[OF r6]] by (cases "GUI_CFG_USE_TRANSPARENCY s6") auto
      show ?thesis unfolding Some invalidate_widget_Suc using True 4 5 6 7 by simp
    qed
  qed
  have P: "\<exists>s'. invalidate_parents (Suc n) e s hp = Some s'"
    if rs: "ranked s up dn L" and b: "2 * L + 3 + 2 * rk up hp < Suc n" for s hp
  proof (cases hp)
    case None
    then show ?thesis by simp
  next
    case (Some h)
    have 1: "2 * L + 2 + 2 * rk up (Some h) < n" using b Some by simp
    have 2: "2 * L + 3 + 2 * rk up (parent (heap s h)) < n"
      using ranked_parent[OF rs, of h] b Some by simp
    show ?thesis using Some IHw[OF rs 1, of 0] IHp[OF rs 2] by auto
  qed
  show ?case using W P by blast
qed

lemma invalidate_widget_terminates:
  assumes "ranked s up dn L" "4 * L + 2 < n"
  shows "\<exists>r s'. invalidate_widget n e s hp c = Some (r, s')"
proof -
  have "2 * L + 2 + 2 * rk up hp < n" using ranked_up_le[OF assms(1), of hp] assms(2) by simp
  then show ?thesis using invalidate_widget_terminates_aux[of up dn L n e] assms(1) by blast
qed

lemma follow_cong:
  "(\<And>a. nxt (hp' a) = nxt (hp a)) \<Longrightarrow> follow hp' k p = follow hp k p"
  by (induction k arbitrary: p) (auto split: option.splits)

lemma follow_skel: "skel s' = skel s \<Longrightarrow> follow (heap s') k p = follow (heap s) k p"
  by (rule follow_cong) (rule skel_eqD(2))

lemma redraw_neq0 [simp]: "GUI_FLAG_REDRAW \<noteq> 0"
  by (simp add: GUI_FLAG_REDRAW_def)

lemma redraw_and: "(x OR GUI_FLAG_REDRAW) AND GUI_FLAG_REDRAW \<noteq> (0 :: u32)"
  by simp

lemma redraw_grown_keeps:
  assumes "redraw_grown s s'" "guii_widget_getflag s a GUI_FLAG_REDRAW \<noteq> 0"
  shows "guii_widget_getflag s' a GUI_FLAG_REDRAW \<noteq> 0"
proof -
  have "flags (heap s' a) = flags (heap s a) \<or> flags (heap s' a) = flags (heap s a) OR GUI_FLAG_REDRAW"
    using assms(1) by (simp add: redraw_grown_def)
  then show ?thesis using assms(2) redraw_and[of "flags (heap s a)"]
    by (auto simp: guii_widget_getflag_def)
qed

lemma redraw_grown_Flags_keeps:
  assumes "redraw_grown s s'" "Flags s AND GUI_FLAG_REDRAW \<noteq> 0"
  shows "Flags s' AND GUI_FLAG_REDRAW \<noteq> 0"
proof -
  have "Flags s' = Flags s \<or> Flags s' = Flags s OR GUI_FLAG_REDRAW"
    using assms(1) by (simp add: redraw_grown_def)
  then show ?thesis using assms(2) redraw_and[of "Flags s"] by auto
qed

lemma redraw_grown_contains:
  assumes "redraw_grown s s'" "rect_contains (Display s) r"
  shows "rect_contains (Display s') r"
  using assms unfolding redraw_grown_def rect_contains_def by linarith

lemma getflag_setflag_same:
  "guii_widget_getflag (guii_widget_setflag s h GUI_FLAG_REDRAW) h GUI_FLAG_REDRAW \<noteq> 0"
  by (simp add: guii_widget_getflag_def guii_widget_setflag_def redraw_and)

lemma invalidate_inner_marks:
  "invalidate_inner n e s r p = Some s' \<Longrightarrow> follow (heap s) k p = Some b \<Longrightarrow>
   GUI_RECT_MATCH r (visible e b) \<Longrightarrow> guii_widget_getflag s' b GUI_FLAG_REDRAW \<noteq> 0"
proof (induction n arbitrary: s p k)
  case 0
  then show ?case by simp
next
  case (Suc n)
  from Suc.prems(2) obtain a where p: "p = Some a" by (cases p; cases k) auto
  let ?t = "guii_widget_setflag s a GUI_FLAG_REDRAW"
  consider (skip) "guii_widget_getflag s a GUI_FLAG_REDRAW \<noteq> 0 \<or> \<not> GUI_RECT_MATCH r (visible e a)"
      "invalidate_inner n e s r (nxt (heap s a)) = Some s'"
    | (mark) "\<not> (guii_widget_getflag s a GUI_FLAG_REDRAW \<noteq> 0 \<or> \<not> GUI_RECT_MATCH r (visible e a))"
      "invalidate_inner n e ?t r (nxt (heap s a)) = Some s'"
    using Suc.prems(1) p by (auto simp add: Let_def split: if_splits)
  then show ?case
  proof cases
    case skip
    show ?thesis
    proof (cases k)
      case 0
      then have "b = a" using Suc.prems(2) p by simp
      then have "guii_widget_getflag s b GUI_FLAG_REDRAW \<noteq> 0" using skip(1) Suc.prems(3) by blast
      then show ?thesis using redraw_grown_keeps[OF invalidate_inner_grown[OF skip(2)]] by blast
    next
      case (Suc k')
      then have "follow (heap s) k' (nxt (heap s a)) = Some b" using Suc.prems(2) p by simp
      from Suc.IH[OF skip(2) this Suc.prems(3)] show ?thesis .
    qed
  next
    case mark
    show ?thesis
    proof (cases k)
      case 0
      then have "b = a" using Suc.prems(2) p by simp
      then have "guii_widget_getflag ?t b GUI_FLAG_REDRAW \<noteq> 0" using getflag_setflag_same by simp
      then show ?thesis using redraw_grown_keeps[OF invalidate_inner_grown[OF mark(2)]] by blast
    next
      case (Suc k')
      then have "follow (heap s) k' (nxt (heap s a)) = Some b" using Suc.prems(2) p by simp
      then have "follow (heap ?t) k' (nxt (heap s a)) = Some b"
        using follow_skel[of ?t s] by simp
      from Suc.IH[OF mark(2) this Suc.prems(3)] show ?thesis .
    qed
  qed
qed

lemma inv_mark_props:
  "guii_widget_getflag (inv_mark e s h c) h GUI_FLAG_REDRAW \<noteq> 0"
  "Flags (inv_mark e s h c) AND GUI_FLAG_REDRAW \<noteq> 0"
  "rect_contains (Display (inv_mark e s h 1)) (visible e h)"
proof -
  show "guii_widget_getflag (inv_mark e s h c) h GUI_FLAG_REDRAW \<noteq> 0"
    by (simp add: inv_mark_def Let_def guii_widget_getflag_def guii_widget_setflag_def
        set_clipping_region_def redraw_and)
  show "Flags (inv_mark e s h c) AND GUI_FLAG_REDRAW \<noteq> 0"
    by (simp add: inv_mark_def Let_def guii_widget_setflag_def set_clipping_region_def redraw_and)
  show "rect_contains (Display (inv_mark e s h 1)) (visible e h)"
    by (simp add: inv_mark_def Let_def guii_widget_setflag_def set_clipping_region_def rect_contains_def)
qed

lemma if_pair_grown:
  assumes "(if c then x else Some (r0, s)) = Some (r, s')"
    and "x = Some (r, s') \<Longrightarrow> redraw_grown s s'"
  shows "redraw_grown s s'"
proof (cases c)
  case True
  then show ?thesis using assms by simp
next
  case False
  then have "s' = s" using assms(1) by simp
  then show ?thesis by (simp add: redraw_grown_refl)
qed

lemma if_state_grown:
  assumes "(if c then x else Some s) = Some s'"
    and "x = Some s' \<Longrightarrow> redraw_grown s s'"
  shows "redraw_grown s s'"
proof (cases c)
  case True
  then show ?thesis using assms by simp
next
  case False
  then have "s' = s" using assms(1) by simp
  then show ?thesis by (simp add: redraw_grown_refl)
qed

lemma invalidate_outer_marks:
  assumes "invalidate_outer n e s (Some h) = Some s'"
    and "follow (heap s) (Suc k) (Some h) = Some b"
    and "GUI_RECT_MATCH (visible e h) (visible e b)"
  shows "guii_widget_getflag s' b GUI_FLAG_REDRAW \<noteq> 0"
proof (cases n)
  case 0
  then show ?thesis using assms(1) by simp
next
  case (Suc m)
  then obtain s1 where
    1: "invalidate_inner m e s (visible e h) (nxt (heap s h)) = Some s1"
    and 2: "invalidate_outer m e s1 (nxt (heap s1 h)) = Some s'"
    using assms(1) by (auto split: option.splits)
  have "follow (heap s) k (nxt (heap s h)) = Some b" using assms(2) by simp
  from invalidate_inner_marks[OF 1 this assms(3)]
  show ?thesis using redraw_grown_keeps[OF invalidate_outer_grown[OF 2]] by blast
qed

text \<open>
  C7. Invalidating a widget that carries the ignore-invalidate flag changes nothing. For
  any other widget \<open>h\<close> of a well-formed tree, \<open>invalidate_widget\<close> with clip growth
  returns 1 and afterwards \<open>h\<close> and the global flags carry the redraw flag, the dirty
  rectangle \<open>GUI.Display\<close> contains the visible rectangle of \<open>h\<close>, and every later
  sibling whose visible rectangle overlaps that of \<open>h\<close> carries the redraw flag.
\<close>

theorem invalidate_widget_marks:
  assumes rs: "ranked s up dn L"
  shows "(guii_widget_getflag s h GUI_FLAG_IGNORE_INVALIDATE \<noteq> 0 \<longrightarrow>
            (\<forall>n c. invalidate_widget (Suc n) e s (Some h) c = Some (0, s))) \<and>
         (guii_widget_getflag s h GUI_FLAG_IGNORE_INVALIDATE = 0 \<longrightarrow>
            (\<exists>n s'. invalidate_widget n e s (Some h) 1 = Some (1, s') \<and>
               guii_widget_getflag s' h GUI_FLAG_REDRAW \<noteq> 0 \<and>
               Flags s' AND GUI_FLAG_REDRAW \<noteq> 0 \<and>
               rect_contains (Display s') (visible e h) \<and>
               (\<forall>k b. follow (heap s) (Suc k) (Some h) = Some b \<longrightarrow>
                      GUI_RECT_MATCH (visible e h) (visible e b) \<longrightarrow>
                      guii_widget_getflag s' b GUI_FLAG_REDRAW \<noteq> 0)))"
proof (intro conjI impI)
  assume "guii_widget_getflag s h GUI_FLAG_IGNORE_INVALIDATE \<noteq> 0"
  then show "\<forall>n c. invalidate_widget (Suc n) e s (Some h) c = Some (0, s)" by simp
next
  assume ig: "guii_widget_getflag s h GUI_FLAG_IGNORE_INVALIDATE = 0"
  let ?s3 = "inv_mark e s h 1"
  have "4 * L + 2 < Suc (4 * L + 2)" by simp
  from invalidate_widget_terminates[OF rs this, of e "Some h" 1] obtain r s' where
    w: "invalidate_widget (Suc (4 * L + 2)) e s (Some h) 1 = Some (r, s')" by blast
  from w ig obtain r4 s4 s5 r6 s6 where
    a: "(if GUI_CFG_USE_TRANSPARENCY ?s3 \<and> guii_widget_istransparent ?s3 h
          then invalidate_widget (4 * L + 2) e ?s3 (parent (heap ?s3 h)) 0
          else Some (0, ?s3)) = Some (r4, s4)"
    and b: "invalidate_outer (4 * L + 2) e s4 (Some h) = Some s5"
    and c: "(if parent (heap s5 h) \<noteq> None \<and> \<not> gui_linkedlist_iswidgetlast s5 (parent (heap s5 h))
          then invalidate_widget (4 * L + 2) e s5 (parent (heap s5 h)) 0 else Some (0, s5)) = Some (r6, s6)"
    and d: "(if GUI_CFG_USE_TRANSPARENCY s6 then invalidate_parents (4 * L + 2) e s6 (parent (heap s6 h))
          else Some s6) = Some s'"
    and r: "r = 1"
    by (rule invalidate_widget_SucE)
  have g4: "redraw_grown ?s3 s4" by (rule if_pair_grown[OF a]) (rule invalidate_widget_grown)
  have g5: "redraw_grown s4 s5" using b by (rule invalidate_outer_grown)
  have g6: "redraw_grown s5 s6" by (rule if_pair_grown[OF c]) (rule invalidate_widget_grown)
  have g7: "redraw_grown s6 s'" by (rule if_state_grown[OF d]) (rule invalidate_parents_grown)
  have g57: "redraw_grown s5 s'" by (rule redraw_grown_trans[OF g6 g7])
  have g37: "redraw_grown ?s3 s'" by (rule redraw_grown_trans[OF g4 redraw_grown_trans[OF g5 g57]])
  have p1: "guii_widget_getflag s' h GUI_FLAG_REDRAW \<noteq> 0"
    by (rule redraw_grown_keeps[OF g37 inv_mark_props(1)])
  have p2: "Flags s' AND GUI_FLAG_REDRAW \<noteq> 0"
    by (rule redraw_grown_Flags_keeps[OF g37 inv_mark_props(2)])
  have p3: "rect_contains (Display s') (visible e h)"
    by (rule redraw_grown_contains[OF g37 inv_mark_props(3)])
  have sk: "skel s4 = skel s"
    using redraw_grown_skel[OF g4] redraw_grown_skel[OF inv_mark_grown, of e s h 1] by simp
  have p4: "guii_widget_getflag s' b GUI_FLAG_REDRAW \<noteq> 0"
    if f: "follow (heap s) (Suc k) (Some h) = Some b"
      and m: "GUI_RECT_MATCH (visible e h) (visible e b)" for k b
  proof -
    have "follow (heap s4) (Suc k) (Some h) = follow (heap s) (Suc k) (Some h)"
      by (rule follow_skel[OF sk])
    then have "follow (heap s4) (Suc k) (Some h) = Some b" using f by (simp only:)
    from invalidate_outer_marks[OF b this m] show ?thesis
      using redraw_grown_keeps[OF g57] by blast
  qed
  show "\<exists>n s'. invalidate_widget n e s (Some h) 1 = Some (1, s') \<and>
               guii_widget_getflag s' h GUI_FLAG_REDRAW \<noteq> 0 \<and>
               Flags s' AND GUI_FLAG_REDRAW \<noteq> 0 \<and>
               rect_contains (Display s') (visible e h) \<and>
               (\<forall>k b. follow (heap s) (Suc k) (Some h) = Some b \<longrightarrow>
                      GUI_RECT_MATCH (visible e h) (visible e b) \<longrightarrow>
                      guii_widget_getflag s' b GUI_FLAG_REDRAW \<noteq> 0)"
    using w r p1 p2 p3 p4 by blast
qed

lemma ranked_tree_state: "ranked tree_state tree_up tree_dn 4"
  by (simp add: ranked_def tree_state_def tree_up_def tree_dn_def gui_init_def zero_handle_def)

theorem invalidate_widget_marks_witness:
  "ranked tree_state tree_up tree_dn 4 \<and>
   (\<exists>n s'. invalidate_widget n sample_env tree_state (Some 1) 1 = Some (1, s') \<and>
       guii_widget_getflag s' 1 GUI_FLAG_REDRAW \<noteq> 0 \<and>
       Flags s' AND GUI_FLAG_REDRAW \<noteq> 0 \<and>
       rect_contains (Display s') \<lparr>X1 = 0, Y1 = 0, X2 = 10, Y2 = 10\<rparr> \<and>
       guii_widget_getflag s' 2 GUI_FLAG_REDRAW \<noteq> 0)"
proof -
  have ig: "guii_widget_getflag tree_state 1 GUI_FLAG_IGNORE_INVALIDATE = 0"
    by (simp add: guii_widget_getflag_def tree_state_def gui_init_def zero_handle_def)
  have f: "follow (heap tree_state) (Suc 0) (Some 1) = Some 2"
    by (simp add: tree_state_def gui_init_def zero_handle_def)
  have m: "GUI_RECT_MATCH (visible sample_env 1) (visible sample_env 2)"
    by (simp add: GUI_RECT_MATCH_def sample_env_def)
  have v: "visible sample_env 1 = \<lparr>X1 = 0, Y1 = 0, X2 = 10, Y2 = 10\<rparr>"
    by (simp add: sample_env_def)
  from invalidate_widget_marks[OF ranked_tree_state, of 1 sample_env] ig
  obtain n s' where
    1: "invalidate_widget n sample_env tree_state (Some 1) 1 = Some (1, s')"
    and 2: "guii_widget_getflag s' 1 GUI_FLAG_REDRAW \<noteq> 0"
    and 3: "Flags s' AND GUI_FLAG_REDRAW \<noteq> 0"
    and 4: "rect_contains (Display s') (visible sample_env 1)"
    and 5: "\<forall>k b. follow (heap tree_state) (Suc k) (Some 1) = Some b \<longrightarrow>
                      GUI_RECT_MATCH (visible sample_env 1) (visible sample_env b) \<longrightarrow>
                      guii_widget_getflag s' b GUI_FLAG_REDRAW \<noteq> 0"
    by blast
  from 5 f m have 6: "guii_widget_getflag s' 2 GUI_FLAG_REDRAW \<noteq> 0" by blast
  show ?thesis using ranked_tree_state 1 2 3 4 6 unfolding v by blast
qed

subsection \<open>Dialog dismissal\<close>

lemma get_dialog_loop_Some:
  "get_dialog_loop (Suc n) s h (Some la) =
     (if dialog_entry_of s h la then Some (Some la) else get_dialog_loop n s h (nxt (dheap s la)))"
  by (simp add: dialog_entry_of_def gui_linkedlist_getnext_gen_def)

lemma get_dialog_loop_None: "get_dialog_loop (Suc n) s h None = Some None"
  by simp

lemma get_dialog_loop_find:
  assumes d: "dll r (dheap s) ls"
  shows "i + m = length ls \<Longrightarrow>
    get_dialog_loop (Suc (m + k)) s h (if i < length ls then Some (ls ! i) else None)
      = Some (find (dialog_entry_of s h) (drop i ls))"
proof (induction m arbitrary: i)
  case 0
  then show ?case by (simp del: get_dialog_loop.simps add: get_dialog_loop_None)
next
  case (Suc m)
  then have i: "i < length ls" and s: "Suc i + m = length ls" by simp_all
  have dr: "drop i ls = ls ! i # drop (Suc i) ls" using i by (simp add: Cons_nth_drop_Suc)
  have nx: "nxt (dheap s (ls ! i)) = (if Suc i < length ls then Some (ls ! Suc i) else None)"
    using dll_nxt_idx[OF d i] i by auto
  have ih: "get_dialog_loop (Suc (m + k)) s h (nxt (dheap s (ls ! i)))
      = Some (find (dialog_entry_of s h) (drop (Suc i) ls))"
    unfolding nx by (rule Suc.IH[OF s])
  have "get_dialog_loop (Suc (Suc m + k)) s h (Some (ls ! i))
      = Some (find (dialog_entry_of s h) (drop i ls))"
    unfolding get_dialog_loop_Some dr using ih by simp
  then show ?case using i by (simp del: get_dialog_loop.simps)
qed

lemma get_dialog_find:
  assumes d: "dll (ddlist s) (dheap s) ls" and n: "length ls < n"
  shows "get_dialog n s h = Some (find (dialog_entry_of s h) ls)"
proof -
  obtain k where k: "n = Suc (length ls + k)" using n less_iff_Suc_add by auto
  have f: "first (ddlist s) = (if 0 < length ls then Some (ls ! 0) else None)"
    using d dll_first[OF d] by (auto simp: dll_Nil)
  have "get_dialog_loop (Suc (length ls + k)) s h (if 0 < length ls then Some (ls ! 0) else None)
      = Some (find (dialog_entry_of s h) (drop 0 ls))"
    by (rule get_dialog_loop_find[OF d]) simp
  then show ?thesis unfolding get_dialog_def k gui_linkedlist_getnext_gen_def
    by (simp del: get_dialog_loop.simps add: f)
qed

text \<open>
  C9. Dismissing a node that has no entry in the dialog registry changes nothing: the
  call returns with the state it was given (no status stored, no notification recorded,
  registry and semaphores as before, no being-removed flag set).
\<close>

theorem dismiss_unregistered_noop:
  assumes "dll (ddlist s) (dheap s) ls"
    and "\<forall>l \<in> set ls. \<not> dialog_entry_of s h l"
    and "length ls < n"
  shows "gui_dialog_dismiss n e s h st = Some (0, s)"
proof -
  have "find (dialog_entry_of s h) ls = None" using assms(2) by (simp add: find_None_iff)
  then have "get_dialog n s h = Some None" using get_dialog_find[OF assms(1,3)] by simp
  then show ?thesis by (simp add: gui_dialog_dismiss_def)
qed

lemma dll_dialog_state: "dll (ddlist dialog_state) (dheap dialog_state) [7]"
  by (simp add: dll_def dialog_state_def zero_dialog_def)

theorem dismiss_unregistered_noop_witness:
  "dll (ddlist dialog_state) (dheap dialog_state) [7] \<and> \<not> dialog_entry_of dialog_state 3 7 \<and>
   gui_dialog_dismiss 2 sample_env dialog_state 3 1 = Some (0, dialog_state)"
proof -
  have 1: "\<forall>l \<in> set [7]. \<not> dialog_entry_of dialog_state 3 l"
    by (simp add: dialog_entry_of_def dialog_state_def zero_dialog_def)
  have 2: "length [7 :: nat] < 2" by simp
  show ?thesis
    using dismiss_unregistered_noop[OF dll_dialog_state 1 2, of sample_env 1] dll_dialog_state 1
    by simp
qed

subsection \<open>Focus\<close>

lemma nr_or_redraw: "nr (x OR GUI_FLAG_REDRAW) = nr x"
  by (simp add: nr_def bit_eq_iff bit_simps) blast

lemma nr_and_not: "nr (x AND NOT f) = nr x AND NOT f"
  by (simp add: nr_def bit_eq_iff bit_simps) blast

lemma nr_or: "nr (x OR f) = nr x OR nr f"
  by (simp add: nr_def bit_eq_iff bit_simps) blast

lemma nr_focus: "nr GUI_FLAG_FOCUS = GUI_FLAG_FOCUS"
  by (simp add: nr_def gui_flag_defs)

lemma and_nr: "f AND GUI_FLAG_REDRAW = 0 \<Longrightarrow> x AND f = nr x AND f"
  by (simp add: nr_def bit_eq_iff bit_simps) blast

lemma and_not_other: "f AND g = 0 \<Longrightarrow> (x AND NOT f) AND g = x AND (g :: u32)"
  by (simp add: bit_eq_iff bit_simps) blast

lemma or_other: "f AND g = 0 \<Longrightarrow> (x OR f) AND g = x AND (g :: u32)"
  by (simp add: bit_eq_iff bit_simps) blast

lemma and_not_same: "(x AND NOT f) AND f = (0 :: u32)"
  by (simp add: bit_eq_iff bit_simps)

lemma grown_nr:
  assumes "redraw_grown s s'"
  shows "nr (flags (heap s' a)) = nr (flags (heap s a))"
proof -
  have "flags (heap s' a) = flags (heap s a) \<or> flags (heap s' a) = flags (heap s a) OR GUI_FLAG_REDRAW"
    using assms by (simp add: redraw_grown_def)
  then show ?thesis by (auto simp: nr_or_redraw)
qed

lemma grown_other:
  assumes "redraw_grown s s'" and "f AND GUI_FLAG_REDRAW = 0"
  shows "flags (heap s' a) AND f = flags (heap s a) AND f"
proof -
  have "flags (heap s' a) AND f = nr (flags (heap s' a)) AND f" by (rule and_nr[OF assms(2)])
  also have "\<dots> = nr (flags (heap s a)) AND f" by (simp only: grown_nr[OF assms(1)])
  also have "\<dots> = flags (heap s a) AND f" by (rule and_nr[OF assms(2), symmetric])
  finally show ?thesis .
qed

lemma grown_redraw_keeps:
  assumes "redraw_grown s s'" "flags (heap s a) AND GUI_FLAG_REDRAW \<noteq> 0"
  shows "flags (heap s' a) AND GUI_FLAG_REDRAW \<noteq> 0"
  using redraw_grown_keeps[OF assms(1), of a] assms(2) by (simp add: guii_widget_getflag_def)

lemma grown_events: "redraw_grown s s' \<Longrightarrow> events s' = events s"
  by (simp add: redraw_grown_def)

lemma grown_Flags: "redraw_grown s s' \<Longrightarrow> Flags s' = Flags s \<or> Flags s' = Flags s OR GUI_FLAG_REDRAW"
  by (simp add: redraw_grown_def)

lemma grown_focus: "redraw_grown s s' \<Longrightarrow> FocusedWidget s' = FocusedWidget s"
  "redraw_grown s s' \<Longrightarrow> FocusedWidgetPrev s' = FocusedWidgetPrev s"
  by (simp_all add: redraw_grown_def)

subsubsection \<open>Invalidation of one widget: termination and effect\<close>

lemma guii_widget_invalidate_terminates:
  assumes r: "ranked s up dn L" and n: "4 * L + 2 < n"
  shows "\<exists>r s'. guii_widget_invalidate n e s h = Some (r, s')"
proof -
  from invalidate_widget_terminates[OF r n, of e "Some h" 1] obtain r1 s1 where
    1: "invalidate_widget n e s (Some h) 1 = Some (r1, s1)" by blast
  have r1: "ranked s1 up dn L" by (rule ranked_grown[OF invalidate_widget_grown[OF 1] r])
  from invalidate_widget_terminates[OF r1 n, of e "parent (heap s1 h)" 0] obtain r2 s2 where
    2: "invalidate_widget n e s1 (parent (heap s1 h)) 0 = Some (r2, s2)" by blast
  show ?thesis unfolding guii_widget_invalidate_def 1 using 2 by simp
qed

lemma invalidate_widget_sets:
  assumes w: "invalidate_widget n e s (Some h) c = Some (r, s')"
    and ig: "guii_widget_getflag s h GUI_FLAG_IGNORE_INVALIDATE = 0"
  shows "guii_widget_getflag s' h GUI_FLAG_REDRAW \<noteq> 0"
proof (cases n)
  case 0
  then show ?thesis using w by simp
next
  case (Suc m)
  let ?s3 = "inv_mark e s h c"
  from w[unfolded Suc] ig obtain r4 s4 s5 r6 s6 where
    a: "(if GUI_CFG_USE_TRANSPARENCY ?s3 \<and> guii_widget_istransparent ?s3 h
          then invalidate_widget m e ?s3 (parent (heap ?s3 h)) 0
          else Some (0, ?s3)) = Some (r4, s4)"
    and b: "invalidate_outer m e s4 (Some h) = Some s5"
    and c: "(if parent (heap s5 h) \<noteq> None \<and> \<not> gui_linkedlist_iswidgetlast s5 (parent (heap s5 h))
          then invalidate_widget m e s5 (parent (heap s5 h)) 0 else Some (0, s5)) = Some (r6, s6)"
    and d: "(if GUI_CFG_USE_TRANSPARENCY s6 then invalidate_parents m e s6 (parent (heap s6 h))
          else Some s6) = Some s'"
    by (rule invalidate_widget_SucE)
  have g4: "redraw_grown ?s3 s4" by (rule if_pair_grown[OF a]) (rule invalidate_widget_grown)
  have g5: "redraw_grown s4 s5" using b by (rule invalidate_outer_grown)
  have g6: "redraw_grown s5 s6" by (rule if_pair_grown[OF c]) (rule invalidate_widget_grown)
  have g7: "redraw_grown s6 s'" by (rule if_state_grown[OF d]) (rule invalidate_parents_grown)
  have g37: "redraw_grown ?s3 s'"
    by (rule redraw_grown_trans[OF g4 redraw_grown_trans[OF g5 redraw_grown_trans[OF g6 g7]]])
  show ?thesis by (rule redraw_grown_keeps[OF g37 inv_mark_props(1)])
qed

lemma guii_widget_invalidate_sets:
  assumes w: "guii_widget_invalidate n e s h = Some (r, s')"
    and ig: "flags (heap s h) AND GUI_FLAG_IGNORE_INVALIDATE = 0"
  shows "flags (heap s' h) AND GUI_FLAG_REDRAW \<noteq> 0"
proof -
  from w obtain r1 s1 where 1: "invalidate_widget n e s (Some h) 1 = Some (r1, s1)"
    unfolding guii_widget_invalidate_def by (auto split: option.splits)
  have a: "guii_widget_getflag s1 h GUI_FLAG_REDRAW \<noteq> 0"
    by (rule invalidate_widget_sets[OF 1]) (simp add: guii_widget_getflag_def ig)
  have "guii_widget_invalidate n e s h = Some (r, s')" by (rule w)
  then obtain r2 s2 where
    2: "(if (guii_widget_getflag s1 h GUI_FLAG_WIDGET_INVALIDATE_PARENT \<noteq> 0 \<or>
                    guii_widget_getcoreflag s1 h GUI_FLAG_WIDGET_INVALIDATE_PARENT \<noteq> 0 \<or>
                    (GUI_CFG_USE_TRANSPARENCY s1 \<and> guii_widget_istransparent s1 h)) \<and>
                   parent (heap s1 h) \<noteq> None
                then invalidate_widget n e s1 (parent (heap s1 h)) 0
                else Some (0, s1)) = Some (r2, s2)"
    and 3: "s' = (if GUI_CFG_OS s2 then mbox_putnow s2 GUI_SYS_MBOX_TYPE_INVALIDATE else s2)"
    unfolding guii_widget_invalidate_def 1 by (auto split: option.splits)
  have g2: "redraw_grown s1 s2" by (rule if_pair_grown[OF 2]) (rule invalidate_widget_grown)
  have g3: "redraw_grown s2 s'" unfolding 3 by simp
  have "guii_widget_getflag s' h GUI_FLAG_REDRAW \<noteq> 0"
    by (rule redraw_grown_keeps[OF redraw_grown_trans[OF g2 g3] a])
  then show ?thesis by (simp add: guii_widget_getflag_def)
qed

subsubsection \<open>Ancestor chains\<close>

lemma ancestors_skel: "skel s' = skel s \<Longrightarrow> ancestors s' m p = ancestors s m p"
proof (induction m arbitrary: p)
  case 0
  then show ?case by simp
next
  case (Suc m)
  show ?case
  proof (cases p)
    case None
    then show ?thesis by simp
  next
    case (Some a)
    have "parent (heap s' a) = parent (heap s a)" by (rule skel_eqD(1)[OF Suc.prems])
    then show ?thesis using Some Suc.IH[OF Suc.prems] by simp
  qed
qed

lemma ancestors_rank:
  assumes r: "ranked s up dn L"
  shows "a \<in> set (ancestors s m p) \<Longrightarrow> rk up (Some a) \<le> rk up p"
proof (induction m arbitrary: p)
  case 0
  then show ?case by simp
next
  case (Suc m)
  then obtain b where p: "p = Some b" by (cases p) auto
  from Suc.prems p have "a = b \<or> a \<in> set (ancestors s m (parent (heap s b)))" by simp
  then show ?case
  proof
    assume "a = b"
    then show ?thesis using p by simp
  next
    assume "a \<in> set (ancestors s m (parent (heap s b)))"
    then have "rk up (Some a) \<le> rk up (parent (heap s b))" by (rule Suc.IH)
    then show ?thesis using ranked_parent[OF r, of b] p by simp
  qed
qed

lemma ancestors_parent_notin:
  assumes r: "ranked s up dn L"
  shows "f \<notin> set (ancestors s m (parent (heap s f)))"
proof
  assume "f \<in> set (ancestors s m (parent (heap s f)))"
  then have "rk up (Some f) \<le> rk up (parent (heap s f))" by (rule ancestors_rank[OF r])
  then show False using ranked_parent[OF r, of f] by simp
qed

lemma below_Nil [simp]: "below c [] = []"
  by (simp add: below_def)

lemma below_Cons: "below c (a # xs) = (if Some a = c then [] else a # below c xs)"
  by (simp add: below_def)

lemma set_below: "set (below c xs) \<subseteq> set xs"
  unfolding below_def by (auto dest: set_takeWhileD)

subsubsection \<open>One step of a focus walk\<close>

lemma path_post_refl: "path_post s ctrl g [] s"
  by (simp add: path_post_def)

lemma path_post_step:
  assumes sk2: "skel sa = skel s"
    and pv2: "FocusedWidgetPrev sa = FocusedWidgetPrev s"
    and ev2: "events sa = events s @ [(f, ctrl, 0)]"
    and fl2: "\<And>a. flags (heap sa a) = (if a = f then gg (flags (heap s a)) else flags (heap s a))"
    and Fl2: "Flags sa = Flags s"
    and g1: "\<And>x. nr (gg x) = g (nr x)"
    and g2: "\<And>x. gg x AND GUI_FLAG_REDRAW = x AND GUI_FLAG_REDRAW"
    and g3: "\<And>x. gg x AND GUI_FLAG_IGNORE_INVALIDATE = x AND GUI_FLAG_IGNORE_INVALIDATE"
    and gr: "redraw_grown sa sb"
    and mk: "flags (heap sa f) AND GUI_FLAG_IGNORE_INVALIDATE = 0 \<Longrightarrow>
             flags (heap sb f) AND GUI_FLAG_REDRAW \<noteq> 0"
    and sc: "skel sc = skel sb" "FocusedWidgetPrev sc = FocusedWidgetPrev sb" "events sc = events sb"
      "heap sc = heap sb" "Flags sc = Flags sb"
    and rest: "path_post sc ctrl g xs s'"
    and nin: "f \<notin> set xs"
  shows "path_post s ctrl g (f # xs) s'"
proof -
  have R: "skel s' = skel sc" "FocusedWidgetPrev s' = FocusedWidgetPrev sc"
    "events s' = events sc @ map (\<lambda>a. (a, ctrl, 0)) xs"
    "\<And>a. nr (flags (heap s' a)) =
          (if a \<in> set xs then g (nr (flags (heap sc a))) else nr (flags (heap sc a)))"
    "\<And>a. flags (heap sc a) AND GUI_FLAG_REDRAW \<noteq> 0 \<Longrightarrow> flags (heap s' a) AND GUI_FLAG_REDRAW \<noteq> 0"
    "\<And>a. a \<in> set xs \<Longrightarrow> flags (heap sc a) AND GUI_FLAG_IGNORE_INVALIDATE = 0 \<Longrightarrow>
          flags (heap s' a) AND GUI_FLAG_REDRAW \<noteq> 0"
    "Flags s' = Flags sc \<or> Flags s' = Flags sc OR GUI_FLAG_REDRAW"
    using rest unfolding path_post_def by blast+
  have ir: "GUI_FLAG_IGNORE_INVALIDATE AND GUI_FLAG_REDRAW = 0" by (simp add: gui_flag_defs)
  have n4: "nr (flags (heap sc a)) = nr (if a = f then gg (flags (heap s a)) else flags (heap s a))" for a
    unfolding sc(4) grown_nr[OF gr] fl2 ..
  have i4: "flags (heap sc a) AND GUI_FLAG_IGNORE_INVALIDATE = flags (heap s a) AND GUI_FLAG_IGNORE_INVALIDATE" for a
    unfolding sc(4) grown_other[OF gr ir] fl2 by (simp add: g3)
  have r2: "flags (heap sa a) AND GUI_FLAG_REDRAW = flags (heap s a) AND GUI_FLAG_REDRAW" for a
    unfolding fl2 by (simp add: g2)
  have c1: "skel s' = skel s" using R(1) sc(1) redraw_grown_skel[OF gr] sk2 by simp
  have c2: "FocusedWidgetPrev s' = FocusedWidgetPrev s" using R(2) sc(2) grown_focus(2)[OF gr] pv2 by simp
  have c3: "events s' = events s @ map (\<lambda>a. (a, ctrl, 0)) (f # xs)"
    using R(3) sc(3) grown_events[OF gr] ev2 by simp
  have c4: "nr (flags (heap s' a)) =
          (if a \<in> set (f # xs) then g (nr (flags (heap s a))) else nr (flags (heap s a)))" for a
  proof (cases "a = f")
    case True
    then show ?thesis using R(4)[of a] n4[of a] nin by (simp add: g1)
  next
    case False
    then show ?thesis using R(4)[of a] n4[of a] by simp
  qed
  have c5: "flags (heap s' a) AND GUI_FLAG_REDRAW \<noteq> 0" if "flags (heap s a) AND GUI_FLAG_REDRAW \<noteq> 0" for a
  proof -
    have "flags (heap sa a) AND GUI_FLAG_REDRAW \<noteq> 0" using that r2 by simp
    then have "flags (heap sb a) AND GUI_FLAG_REDRAW \<noteq> 0" by (rule grown_redraw_keeps[OF gr])
    then show ?thesis using R(5)[of a] sc(4) by simp
  qed
  have c6: "flags (heap s' a) AND GUI_FLAG_REDRAW \<noteq> 0"
    if a: "a \<in> set (f # xs)" and i: "flags (heap s a) AND GUI_FLAG_IGNORE_INVALIDATE = 0" for a
  proof (cases "a = f")
    case True
    have "flags (heap sa f) AND GUI_FLAG_IGNORE_INVALIDATE = 0" using i True fl2[of f] by (simp add: g3)
    then have "flags (heap sb f) AND GUI_FLAG_REDRAW \<noteq> 0" by (rule mk)
    then show ?thesis using R(5)[of f] sc(4) True by simp
  next
    case False
    then have "a \<in> set xs" using a by simp
    moreover have "flags (heap sc a) AND GUI_FLAG_IGNORE_INVALIDATE = 0" using i i4 by simp
    ultimately show ?thesis by (rule R(6))
  qed
  have c7: "Flags s' = Flags s \<or> Flags s' = Flags s OR GUI_FLAG_REDRAW"
    using R(7) sc(5) grown_Flags[OF gr] Fl2 by (metis or_redraw_idem)
  show ?thesis unfolding path_post_def using c1 c2 c3 c4 c5 c6 c7 by blast
qed

subsubsection \<open>The two loops of focus-set\<close>

lemma focus_out_loop_Some:
  "FocusedWidget s = Some f \<Longrightarrow> Some f \<noteq> Some c \<Longrightarrow> focus_out_loop (Suc n) e s (Some c) =
    (case guii_widget_invalidate n e (notify e (guii_widget_clrflag s f GUI_FLAG_FOCUS) f GUI_WC_FocusOut) f of
       None \<Rightarrow> None
     | Some (r, s3) \<Rightarrow> focus_out_loop n e (s3\<lparr>FocusedWidget := parent (heap s3 f)\<rparr>) (Some c))"
  by (simp add: Let_def)

lemma notify_fields:
  "events (notify e s h c) = events s @ [(h, c, 0)]"
  "heap (notify e s h c) = heap s"
  "Flags (notify e s h c) = Flags s"
  "FocusedWidget (notify e s h c) = FocusedWidget s"
  "FocusedWidgetPrev (notify e s h c) = FocusedWidgetPrev s"
  by (simp_all add: notify_def guii_widget_callback_def)

lemma clrflag_fields:
  "events (guii_widget_clrflag s h f) = events s"
  "flags (heap (guii_widget_clrflag s h f) a) = (if a = h then flags (heap s a) AND NOT f else flags (heap s a))"
  "Flags (guii_widget_clrflag s h f) = Flags s"
  "FocusedWidget (guii_widget_clrflag s h f) = FocusedWidget s"
  "FocusedWidgetPrev (guii_widget_clrflag s h f) = FocusedWidgetPrev s"
  by (simp_all add: guii_widget_clrflag_def)

lemma setflag_fields:
  "events (guii_widget_setflag s h f) = events s"
  "flags (heap (guii_widget_setflag s h f) a) = (if a = h then flags (heap s a) OR f else flags (heap s a))"
  "Flags (guii_widget_setflag s h f) = Flags s"
  "FocusedWidget (guii_widget_setflag s h f) = FocusedWidget s"
  "FocusedWidgetPrev (guii_widget_setflag s h f) = FocusedWidgetPrev s"
  by (simp_all add: guii_widget_setflag_def)

lemma focus_out_loop_spec:
  "ranked s up dn L \<Longrightarrow> rk up (FocusedWidget s) \<le> m \<Longrightarrow> m + 4 * L + 3 < n \<Longrightarrow>
     \<exists>s'. focus_out_loop n e s (Some c) = Some s' \<and>
          path_post s GUI_WC_FocusOut (\<lambda>x. x AND NOT GUI_FLAG_FOCUS)
            (below (Some c) (ancestors s m (FocusedWidget s))) s'"
proof (induction m arbitrary: s n)
  case 0
  then have "FocusedWidget s = None" by (cases "FocusedWidget s") simp_all
  moreover obtain n' where "n = Suc n'" using 0(3) by (cases n) simp_all
  ultimately show ?case by (simp add: path_post_refl)
next
  case (Suc m)
  obtain n' where n: "n = Suc n'" using Suc.prems(3) by (cases n) simp_all
  show ?case
  proof (cases "FocusedWidget s")
    case None
    then show ?thesis using n by (simp add: path_post_refl)
  next
    case (Some f)
    show ?thesis
    proof (cases "f = c")
      case True
      then show ?thesis using n Some by (simp add: path_post_refl below_Cons)
    next
      case False
      let ?s1 = "guii_widget_clrflag s f GUI_FLAG_FOCUS"
      let ?s2 = "notify e ?s1 f GUI_WC_FocusOut"
      have sk2: "skel ?s2 = skel s" by simp
      have r2: "ranked ?s2 up dn L" using ranked_skel[OF sk2] Suc.prems(1) by simp
      have "4 * L + 2 < n'" using Suc.prems(3) n by simp
      from guii_widget_invalidate_terminates[OF r2 this, of e f] obtain r s3 where
        inv: "guii_widget_invalidate n' e ?s2 f = Some (r, s3)" by blast
      have gr: "redraw_grown ?s2 s3" by (rule guii_widget_invalidate_grown[OF inv])
      let ?s4 = "s3\<lparr>FocusedWidget := parent (heap s3 f)\<rparr>"
      have sk3: "skel s3 = skel s" using redraw_grown_skel[OF gr] sk2 by simp
      have sk4: "skel ?s4 = skel s" using sk3 by simp
      have par: "parent (heap s3 f) = parent (heap s f)" by (rule skel_eqD(1)[OF sk3])
      have r4: "ranked ?s4 up dn L" using ranked_skel[OF sk4] Suc.prems(1) by simp
      have "rk up (parent (heap s f)) < rk up (Some f)" by (rule ranked_parent[OF Suc.prems(1)])
      then have rk4: "rk up (FocusedWidget ?s4) \<le> m" using Suc.prems(2) Some par by simp
      have "m + 4 * L + 3 < n'" using Suc.prems(3) n by simp
      from Suc.IH[OF r4 rk4 this] obtain s' where
        lp: "focus_out_loop n' e ?s4 (Some c) = Some s'"
        and pp: "path_post ?s4 GUI_WC_FocusOut (\<lambda>x. x AND NOT GUI_FLAG_FOCUS)
            (below (Some c) (ancestors ?s4 m (FocusedWidget ?s4))) s'" by blast
      have anc: "ancestors ?s4 m (FocusedWidget ?s4) = ancestors s m (parent (heap s f))"
        using ancestors_skel[OF sk4] par by simp
      have pp': "path_post ?s4 GUI_WC_FocusOut (\<lambda>x. x AND NOT GUI_FLAG_FOCUS)
            (below (Some c) (ancestors s m (parent (heap s f)))) s'"
        using pp unfolding anc .
      have nin: "f \<notin> set (below (Some c) (ancestors s m (parent (heap s f))))"
        using ancestors_parent_notin[OF Suc.prems(1), of f m] set_below by blast
      have fr: "GUI_FLAG_FOCUS AND GUI_FLAG_REDRAW = 0" by (simp add: gui_flag_defs)
      have fi: "GUI_FLAG_FOCUS AND GUI_FLAG_IGNORE_INVALIDATE = 0" by (simp add: gui_flag_defs)
      have step: "path_post s GUI_WC_FocusOut (\<lambda>x. x AND NOT GUI_FLAG_FOCUS)
            (f # below (Some c) (ancestors s m (parent (heap s f)))) s'"
      proof (rule path_post_step[where sa = ?s2 and sb = s3 and sc = ?s4
            and gg = "\<lambda>x. x AND NOT GUI_FLAG_FOCUS"])
        show "skel ?s2 = skel s" by (rule sk2)
        show "FocusedWidgetPrev ?s2 = FocusedWidgetPrev s" by (simp add: notify_fields clrflag_fields)
        show "events ?s2 = events s @ [(f, GUI_WC_FocusOut, 0)]" by (simp add: notify_fields clrflag_fields)
        show "flags (heap ?s2 a) = (if a = f then flags (heap s a) AND NOT GUI_FLAG_FOCUS else flags (heap s a))" for a
          by (simp add: notify_fields clrflag_fields)
        show "Flags ?s2 = Flags s" by (simp add: notify_fields clrflag_fields)
        show "nr (x AND NOT GUI_FLAG_FOCUS) = nr x AND NOT GUI_FLAG_FOCUS" for x by (rule nr_and_not)
        show "(x AND NOT GUI_FLAG_FOCUS) AND GUI_FLAG_REDRAW = x AND GUI_FLAG_REDRAW" for x
          by (rule and_not_other[OF fr])
        show "(x AND NOT GUI_FLAG_FOCUS) AND GUI_FLAG_IGNORE_INVALIDATE = x AND GUI_FLAG_IGNORE_INVALIDATE" for x
          by (rule and_not_other[OF fi])
        show "redraw_grown ?s2 s3" by (rule gr)
        show "flags (heap s3 f) AND GUI_FLAG_REDRAW \<noteq> 0"
          if "flags (heap ?s2 f) AND GUI_FLAG_IGNORE_INVALIDATE = 0"
          by (rule guii_widget_invalidate_sets[OF inv that])
        show "skel ?s4 = skel s3" by simp
        show "FocusedWidgetPrev ?s4 = FocusedWidgetPrev s3" by simp
        show "events ?s4 = events s3" by simp
        show "heap ?s4 = heap s3" by simp
        show "Flags ?s4 = Flags s3" by simp
        show "path_post ?s4 GUI_WC_FocusOut (\<lambda>x. x AND NOT GUI_FLAG_FOCUS)
            (below (Some c) (ancestors s m (parent (heap s f)))) s'" by (rule pp')
        show "f \<notin> set (below (Some c) (ancestors s m (parent (heap s f))))" by (rule nin)
      qed
      have "focus_out_loop n e s (Some c) = Some s'"
        unfolding n using focus_out_loop_Some[OF Some, of c n' e] False inv lp by simp
      moreover have "below (Some c) (ancestors s (Suc m) (FocusedWidget s))
          = f # below (Some c) (ancestors s m (parent (heap s f)))"
        using Some False by (simp add: below_Cons)
      ultimately show ?thesis using step by simp
    qed
  qed
qed

lemma focus_in_loop_Some:
  "Some h \<noteq> Some c \<Longrightarrow> focus_in_loop (Suc n) e s (Some h) (Some c) =
    (case guii_widget_invalidate n e (notify e (guii_widget_setflag s h GUI_FLAG_FOCUS) h GUI_WC_FocusIn) h of
       None \<Rightarrow> None
     | Some (r, s3) \<Rightarrow> focus_in_loop n e s3 (parent (heap s3 h)) (Some c))"
  by (simp add: Let_def)

lemma focus_in_loop_spec:
  "ranked s up dn L \<Longrightarrow> rk up p \<le> m \<Longrightarrow> m + 4 * L + 3 < n \<Longrightarrow>
     \<exists>s'. focus_in_loop n e s p (Some c) = Some s' \<and> FocusedWidget s' = FocusedWidget s \<and>
          path_post s GUI_WC_FocusIn (\<lambda>x. x OR GUI_FLAG_FOCUS)
            (below (Some c) (ancestors s m p)) s'"
proof (induction m arbitrary: s n p)
  case 0
  then have "p = None" by (cases p) simp_all
  moreover obtain n' where "n = Suc n'" using 0(3) by (cases n) simp_all
  ultimately show ?case by (simp add: path_post_refl)
next
  case (Suc m)
  obtain n' where n: "n = Suc n'" using Suc.prems(3) by (cases n) simp_all
  show ?case
  proof (cases p)
    case None
    then show ?thesis using n by (simp add: path_post_refl)
  next
    case (Some f)
    show ?thesis
    proof (cases "f = c")
      case True
      then show ?thesis using n Some by (simp add: path_post_refl below_Cons)
    next
      case False
      let ?s1 = "guii_widget_setflag s f GUI_FLAG_FOCUS"
      let ?s2 = "notify e ?s1 f GUI_WC_FocusIn"
      have sk2: "skel ?s2 = skel s" by simp
      have r2: "ranked ?s2 up dn L" using ranked_skel[OF sk2] Suc.prems(1) by simp
      have "4 * L + 2 < n'" using Suc.prems(3) n by simp
      from guii_widget_invalidate_terminates[OF r2 this, of e f] obtain r s3 where
        inv: "guii_widget_invalidate n' e ?s2 f = Some (r, s3)" by blast
      have gr: "redraw_grown ?s2 s3" by (rule guii_widget_invalidate_grown[OF inv])
      have sk3: "skel s3 = skel s" using redraw_grown_skel[OF gr] sk2 by simp
      have par: "parent (heap s3 f) = parent (heap s f)" by (rule skel_eqD(1)[OF sk3])
      have r3: "ranked s3 up dn L" using ranked_skel[OF sk3] Suc.prems(1) by simp
      have "rk up (parent (heap s f)) < rk up (Some f)" by (rule ranked_parent[OF Suc.prems(1)])
      then have rk3: "rk up (parent (heap s3 f)) \<le> m" using Suc.prems(2) Some par by simp
      have "m + 4 * L + 3 < n'" using Suc.prems(3) n by simp
      from Suc.IH[OF r3 rk3 this] obtain s' where
        lp: "focus_in_loop n' e s3 (parent (heap s3 f)) (Some c) = Some s'"
        and fw: "FocusedWidget s' = FocusedWidget s3"
        and pp: "path_post s3 GUI_WC_FocusIn (\<lambda>x. x OR GUI_FLAG_FOCUS)
            (below (Some c) (ancestors s3 m (parent (heap s3 f)))) s'" by blast
      have anc: "ancestors s3 m (parent (heap s3 f)) = ancestors s m (parent (heap s f))"
        using ancestors_skel[OF sk3] par by simp
      have pp': "path_post s3 GUI_WC_FocusIn (\<lambda>x. x OR GUI_FLAG_FOCUS)
            (below (Some c) (ancestors s m (parent (heap s f)))) s'"
        using pp unfolding anc .
      have nin: "f \<notin> set (below (Some c) (ancestors s m (parent (heap s f))))"
        using ancestors_parent_notin[OF Suc.prems(1), of f m] set_below by blast
      have fr: "GUI_FLAG_FOCUS AND GUI_FLAG_REDRAW = 0" by (simp add: gui_flag_defs)
      have fi: "GUI_FLAG_FOCUS AND GUI_FLAG_IGNORE_INVALIDATE = 0" by (simp add: gui_flag_defs)
      have step: "path_post s GUI_WC_FocusIn (\<lambda>x. x OR GUI_FLAG_FOCUS)
            (f # below (Some c) (ancestors s m (parent (heap s f)))) s'"
      proof (rule path_post_step[where sa = ?s2 and sb = s3 and sc = s3
            and gg = "\<lambda>x. x OR GUI_FLAG_FOCUS"])
        show "skel ?s2 = skel s" by (rule sk2)
        show "FocusedWidgetPrev ?s2 = FocusedWidgetPrev s" by (simp add: notify_fields setflag_fields)
        show "events ?s2 = events s @ [(f, GUI_WC_FocusIn, 0)]" by (simp add: notify_fields setflag_fields)
        show "flags (heap ?s2 a) = (if a = f then flags (heap s a) OR GUI_FLAG_FOCUS else flags (heap s a))" for a
          by (simp add: notify_fields setflag_fields)
        show "Flags ?s2 = Flags s" by (simp add: notify_fields setflag_fields)
        show "nr (x OR GUI_FLAG_FOCUS) = nr x OR GUI_FLAG_FOCUS" for x by (simp add: nr_or nr_focus)
        show "(x OR GUI_FLAG_FOCUS) AND GUI_FLAG_REDRAW = x AND GUI_FLAG_REDRAW" for x
          by (rule or_other[OF fr])
        show "(x OR GUI_FLAG_FOCUS) AND GUI_FLAG_IGNORE_INVALIDATE = x AND GUI_FLAG_IGNORE_INVALIDATE" for x
          by (rule or_other[OF fi])
        show "redraw_grown ?s2 s3" by (rule gr)
        show "flags (heap s3 f) AND GUI_FLAG_REDRAW \<noteq> 0"
          if "flags (heap ?s2 f) AND GUI_FLAG_IGNORE_INVALIDATE = 0"
          by (rule guii_widget_invalidate_sets[OF inv that])
        show "path_post s3 GUI_WC_FocusIn (\<lambda>x. x OR GUI_FLAG_FOCUS)
            (below (Some c) (ancestors s m (parent (heap s f)))) s'" by (rule pp')
        show "f \<notin> set (below (Some c) (ancestors s m (parent (heap s f))))" by (rule nin)
      qed simp_all
      have "focus_in_loop n e s p (Some c) = Some s'"
        unfolding n Some using focus_in_loop_Some[of f c n' e s] False inv lp by simp
      moreover have "below (Some c) (ancestors s (Suc m) p)
          = f # below (Some c) (ancestors s m (parent (heap s f)))"
        using Some False by (simp add: below_Cons)
      moreover have "FocusedWidget s' = FocusedWidget s"
        using fw grown_focus(1)[OF gr] by (simp add: notify_fields setflag_fields)
      ultimately show ?thesis using step by simp
    qed
  qed
qed

subsubsection \<open>The common ancestor\<close>

lemma common_inner_spec:
  "ranked s up dn L \<Longrightarrow> rk up tmp \<le> m \<Longrightarrow> m < n \<Longrightarrow>
     common_inner n s a tmp = Some (if a \<in> set (ancestors s m tmp) then Some a else None)"
proof (induction m arbitrary: tmp n)
  case 0
  then have "tmp = None" by (cases tmp) simp_all
  moreover obtain n' where "n = Suc n'" using 0(3) by (cases n) simp_all
  ultimately show ?case by simp
next
  case (Suc m)
  obtain n' where n: "n = Suc n'" using Suc.prems(3) by (cases n) simp_all
  show ?case
  proof (cases tmp)
    case None
    then show ?thesis using n by simp
  next
    case (Some t)
    have "rk up (parent (heap s t)) < rk up (Some t)" by (rule ranked_parent[OF Suc.prems(1)])
    then have 1: "rk up (parent (heap s t)) \<le> m" using Suc.prems(2) Some by simp
    have 2: "m < n'" using Suc.prems(3) n by simp
    show ?thesis unfolding n Some using Suc.IH[OF Suc.prems(1) 1 2] by auto
  qed
qed

lemma ancestors_enough:
  assumes r: "ranked s up dn L"
  shows "rk up p \<le> m \<Longrightarrow> rk up p \<le> m' \<Longrightarrow> ancestors s m p = ancestors s m' p"
proof (induction m arbitrary: p m')
  case 0
  then have "p = None" by (cases p) simp_all
  then show ?case by (cases m') simp_all
next
  case (Suc m)
  show ?case
  proof (cases p)
    case None
    then show ?thesis by (cases m') simp_all
  next
    case (Some t)
    then obtain k where k: "m' = Suc k" using Suc.prems(2) by (cases m') simp_all
    have "rk up (parent (heap s t)) < rk up (Some t)" by (rule ranked_parent[OF r])
    then have 1: "rk up (parent (heap s t)) \<le> m" and 2: "rk up (parent (heap s t)) \<le> k"
      using Suc.prems Some k by simp_all
    show ?thesis unfolding k Some using Suc.IH[OF 1 2] by simp
  qed
qed

lemma common_outer_spec:
  "ranked s up dn L \<Longrightarrow> rk up p \<le> m \<Longrightarrow> m + L < n \<Longrightarrow>
     common_outer n s p h2 =
       Some (case find (\<lambda>a. a \<in> set (ancestors s L h2)) (ancestors s m p) of
               Some c \<Rightarrow> Some c | None \<Rightarrow> first (Root s))"
proof (induction m arbitrary: p n)
  case 0
  then have "p = None" by (cases p) simp_all
  moreover obtain n' where "n = Suc n'" using 0(3) by (cases n) simp_all
  ultimately show ?case by simp
next
  case (Suc m)
  obtain n' where n: "n = Suc n'" using Suc.prems(3) by (cases n) simp_all
  show ?case
  proof (cases p)
    case None
    then show ?thesis using n by simp
  next
    case (Some t)
    have "rk up (parent (heap s t)) < rk up (Some t)" by (rule ranked_parent[OF Suc.prems(1)])
    then have 1: "rk up (parent (heap s t)) \<le> m" using Suc.prems(2) Some by simp
    have 2: "m + L < n'" using Suc.prems(3) n by simp
    have 3: "L < n'" using 2 by simp
    have ci: "common_inner n' s t h2 = Some (if t \<in> set (ancestors s L h2) then Some t else None)"
      by (rule common_inner_spec[OF Suc.prems(1) ranked_up_le[OF Suc.prems(1)] 3])
    show ?thesis unfolding n Some using ci Suc.IH[OF Suc.prems(1) 1 2] by simp
  qed
qed

lemma get_common_parentwidget_spec:
  assumes r: "ranked s up dn L" and n: "2 * L < n"
  shows "get_common_parentwidget n s (Some f) (Some h) = Some (common_parent s L (Some f) (Some h))"
proof -
  have "L + L < n" using n by simp
  from common_outer_spec[OF r ranked_up_le[OF r] this, of "Some f" "Some h"]
  show ?thesis by (simp add: get_common_parentwidget_def common_parent_def)
qed

subsubsection \<open>Focus-set\<close>

lemma find_takeWhile_not:
  "find P xs = Some c \<Longrightarrow> a \<in> set (takeWhile (\<lambda>x. x \<noteq> c) xs) \<Longrightarrow> \<not> P a"
proof (induction xs)
  case Nil
  then show ?case by simp
next
  case (Cons x xs)
  show ?case
  proof (cases "P x")
    case True
    then have "c = x" using Cons.prems(1) by simp
    then show ?thesis using Cons.prems(2) by simp
  next
    case False
    then have f: "find P xs = Some c" using Cons.prems(1) by simp
    then have "P c" by (auto simp: find_Some_iff)
    then have "x \<noteq> c" using False by auto
    then have "a = x \<or> a \<in> set (takeWhile (\<lambda>x. x \<noteq> c) xs)" using Cons.prems(2) by simp
    then show ?thesis using False Cons.IH[OF f] by auto
  qed
qed

lemma focus_paths_disjoint:
  "a \<in> set (focus_out_path s m h) \<Longrightarrow> a \<notin> set (focus_in_path s m h)"
proof (cases "find (\<lambda>a. a \<in> set (ancestors s m (Some h))) (ancestors s m (FocusedWidget s))")
  case None
  assume "a \<in> set (focus_out_path s m h)"
  then have "a \<in> set (ancestors s m (FocusedWidget s))"
    unfolding focus_out_path_def using set_below by blast
  then have "a \<notin> set (ancestors s m (Some h))" using None by (auto simp: find_None_iff)
  then show ?thesis unfolding focus_in_path_def using set_below by blast
next
  case (Some c)
  assume "a \<in> set (focus_out_path s m h)"
  then have "a \<in> set (takeWhile (\<lambda>x. x \<noteq> c) (ancestors s m (FocusedWidget s)))"
    unfolding focus_out_path_def common_parent_def Some below_def by simp
  then have "a \<notin> set (ancestors s m (Some h))" by (rule find_takeWhile_not[OF Some])
  then show ?thesis unfolding focus_in_path_def using set_below by blast
qed

lemma common_parent_None: "common_parent s m None t = first (Root s)"
  by (cases m) (simp_all add: common_parent_def)

lemma path_post_fields:
  assumes "path_post s ctrl g xs s'"
  shows "skel s' = skel s" "FocusedWidgetPrev s' = FocusedWidgetPrev s"
    "events s' = events s @ map (\<lambda>a. (a, ctrl, 0)) xs"
    "\<And>a. nr (flags (heap s' a)) =
          (if a \<in> set xs then g (nr (flags (heap s a))) else nr (flags (heap s a)))"
    "\<And>a. flags (heap s a) AND GUI_FLAG_REDRAW \<noteq> 0 \<Longrightarrow> flags (heap s' a) AND GUI_FLAG_REDRAW \<noteq> 0"
    "\<And>a. a \<in> set xs \<Longrightarrow> flags (heap s a) AND GUI_FLAG_IGNORE_INVALIDATE = 0 \<Longrightarrow>
          flags (heap s' a) AND GUI_FLAG_REDRAW \<noteq> 0"
    "Flags s' = Flags s \<or> Flags s' = Flags s OR GUI_FLAG_REDRAW"
  using assms unfolding path_post_def by blast+

lemma focus_set_spec:
  assumes r: "ranked s up dn L" and root: "first (Root s) \<noteq> None"
    and ne: "FocusedWidget s \<noteq> Some h" and n: "5 * L + 3 < n"
  shows "\<exists>s'. gui_widget_focus_set n e s (Some h) = Some s' \<and>
     FocusedWidget s' = Some h \<and> FocusedWidgetPrev s' = FocusedWidgetPrev s \<and> skel s' = skel s \<and>
     events s' = events s @ map (\<lambda>a. (a, GUI_WC_FocusOut, 0)) (focus_out_path s L h)
                          @ map (\<lambda>a. (a, GUI_WC_FocusIn, 0)) (focus_in_path s L h) \<and>
     (\<forall>a. nr (flags (heap s' a)) =
          (if a \<in> set (focus_in_path s L h) then nr (flags (heap s a)) OR GUI_FLAG_FOCUS
           else if a \<in> set (focus_out_path s L h) then nr (flags (heap s a)) AND NOT GUI_FLAG_FOCUS
           else nr (flags (heap s a)))) \<and>
     (\<forall>a. flags (heap s a) AND GUI_FLAG_REDRAW \<noteq> 0 \<longrightarrow> flags (heap s' a) AND GUI_FLAG_REDRAW \<noteq> 0) \<and>
     (\<forall>a. a \<in> set (focus_out_path s L h) \<union> set (focus_in_path s L h) \<longrightarrow>
          flags (heap s a) AND GUI_FLAG_IGNORE_INVALIDATE = 0 \<longrightarrow>
          flags (heap s' a) AND GUI_FLAG_REDRAW \<noteq> 0) \<and>
     (Flags s' = Flags s \<or> Flags s' = Flags s OR GUI_FLAG_REDRAW)"
proof -
  let ?c = "common_parent s L (FocusedWidget s) (Some h)"
  let ?outs = "focus_out_path s L h"
  let ?ins = "focus_in_path s L h"
  let ?go = "\<lambda>x. x AND NOT GUI_FLAG_FOCUS"
  let ?gi = "\<lambda>x. x OR GUI_FLAG_FOCUS"
  have cne: "?c \<noteq> None" using root by (auto simp: common_parent_def split: option.splits)
  then obtain c where c: "?c = Some c" by blast
  have n1: "L + 4 * L + 3 < n" using n by simp
  have n2: "2 * L < n" using n by simp
  have first: "\<exists>s1. (if FocusedWidget s \<noteq> None then
               (case get_common_parentwidget n s (FocusedWidget s) (Some h) of
                  None \<Rightarrow> None
                | Some common \<Rightarrow>
                    if common \<noteq> None
                    then map_option (\<lambda>s'. (common, s')) (focus_out_loop n e s common)
                    else Some (common, s))
             else Some (first (Root s), s)) = Some (Some c, s1) \<and>
        path_post s GUI_WC_FocusOut ?go ?outs s1"
  proof (cases "FocusedWidget s")
    case None
    have "?outs = []" unfolding focus_out_path_def None by (cases L) simp_all
    then show ?thesis using None c by (simp add: common_parent_None path_post_refl)
  next
    case (Some f)
    have gc: "get_common_parentwidget n s (FocusedWidget s) (Some h) = Some (Some c)"
      unfolding Some using get_common_parentwidget_spec[OF r n2, of f h] c Some by simp
    from focus_out_loop_spec[OF r ranked_up_le[OF r] n1, of e c] obtain s1 where
      1: "focus_out_loop n e s (Some c) = Some s1"
      and 2: "path_post s GUI_WC_FocusOut ?go (below (Some c) (ancestors s L (FocusedWidget s))) s1"
      by blast
    have "path_post s GUI_WC_FocusOut ?go ?outs s1" using 2 unfolding focus_out_path_def c .
    then show ?thesis using Some gc 1 by simp
  qed
  then obtain s1 where
    A: "(if FocusedWidget s \<noteq> None then
               (case get_common_parentwidget n s (FocusedWidget s) (Some h) of
                  None \<Rightarrow> None
                | Some common \<Rightarrow>
                    if common \<noteq> None
                    then map_option (\<lambda>s'. (common, s')) (focus_out_loop n e s common)
                    else Some (common, s))
             else Some (first (Root s), s)) = Some (Some c, s1)"
    and P1: "path_post s GUI_WC_FocusOut ?go ?outs s1" by blast
  let ?s1 = "s1\<lparr>FocusedWidget := Some h\<rparr>"
  note O = path_post_fields[OF P1]
  have sk1: "skel ?s1 = skel s" using O(1) by simp
  have r1: "ranked ?s1 up dn L" using ranked_skel[OF sk1] r by simp
  from focus_in_loop_spec[OF r1 ranked_up_le[OF r1] n1, of e "Some h" c] obtain s' where
    B: "focus_in_loop n e ?s1 (Some h) (Some c) = Some s'"
    and fw: "FocusedWidget s' = FocusedWidget ?s1"
    and P2': "path_post ?s1 GUI_WC_FocusIn ?gi (below (Some c) (ancestors ?s1 L (Some h))) s'"
    by blast
  have "below (Some c) (ancestors ?s1 L (Some h)) = ?ins"
    unfolding focus_in_path_def c ancestors_skel[OF sk1] ..
  then have P2: "path_post ?s1 GUI_WC_FocusIn ?gi ?ins s'" using P2' by simp
  note I = path_post_fields[OF P2]
  have run: "gui_widget_focus_set n e s (Some h) = Some s'"
    unfolding gui_widget_focus_set_def using ne A B by simp
  have fi: "GUI_FLAG_FOCUS AND GUI_FLAG_IGNORE_INVALIDATE = 0" by (simp add: gui_flag_defs)
  have ir: "GUI_FLAG_IGNORE_INVALIDATE AND GUI_FLAG_REDRAW = 0" by (simp add: gui_flag_defs)
  have c1: "FocusedWidget s' = Some h" using fw by simp
  have c2: "FocusedWidgetPrev s' = FocusedWidgetPrev s" using I(2) O(2) by simp
  have c3: "skel s' = skel s" using I(1) sk1 by simp
  have c4: "events s' = events s @ map (\<lambda>a. (a, GUI_WC_FocusOut, 0)) ?outs
                          @ map (\<lambda>a. (a, GUI_WC_FocusIn, 0)) ?ins"
    using I(3) O(3) by simp
  have c5: "nr (flags (heap s' a)) =
          (if a \<in> set ?ins then nr (flags (heap s a)) OR GUI_FLAG_FOCUS
           else if a \<in> set ?outs then nr (flags (heap s a)) AND NOT GUI_FLAG_FOCUS
           else nr (flags (heap s a)))" for a
    using I(4)[of a] O(4)[of a] focus_paths_disjoint[of a s L h] by auto
  have c6: "flags (heap s' a) AND GUI_FLAG_REDRAW \<noteq> 0" if "flags (heap s a) AND GUI_FLAG_REDRAW \<noteq> 0" for a
    using I(5)[of a] O(5)[OF that] by simp
  have c7: "flags (heap s' a) AND GUI_FLAG_REDRAW \<noteq> 0"
    if a: "a \<in> set ?outs \<union> set ?ins" and i: "flags (heap s a) AND GUI_FLAG_IGNORE_INVALIDATE = 0" for a
  proof (cases "a \<in> set ?outs")
    case True
    from O(6)[OF True i] show ?thesis using I(5)[of a] by simp
  next
    case False
    then have ain: "a \<in> set ?ins" using a by simp
    have "flags (heap s1 a) AND GUI_FLAG_IGNORE_INVALIDATE = nr (flags (heap s1 a)) AND GUI_FLAG_IGNORE_INVALIDATE"
      by (rule and_nr[OF ir])
    also have "\<dots> = nr (flags (heap s a)) AND GUI_FLAG_IGNORE_INVALIDATE" using O(4)[of a] False by simp
    also have "\<dots> = flags (heap s a) AND GUI_FLAG_IGNORE_INVALIDATE" by (rule and_nr[OF ir, symmetric])
    finally have "flags (heap ?s1 a) AND GUI_FLAG_IGNORE_INVALIDATE = 0" using i by simp
    then show ?thesis by (rule I(6)[OF ain])
  qed
  have c8: "Flags s' = Flags s \<or> Flags s' = Flags s OR GUI_FLAG_REDRAW"
    using I(7) O(7) by (simp, metis or_redraw_idem)
  show ?thesis using run c1 c2 c3 c4 c5 c6 c7 c8 by blast
qed

lemma or_and_focus: "(x OR GUI_FLAG_FOCUS) AND GUI_FLAG_FOCUS \<noteq> (0 :: u32)"
  by (simp add: gui_flag_defs)

lemma focus_neq0: "GUI_FLAG_FOCUS \<noteq> 0"
  by (simp add: gui_flag_defs)

text \<open>
  C8. Setting the focus to the widget that has it already changes nothing. Otherwise, in
  a well-formed tree with a non-empty root list, \<open>gui_widget_focus_set\<close> returns with the
  target as \<open>GUI.FocusedWidget\<close>; the nodes of the old focus path strictly below the
  nearest common ancestor (the first element of the root list when nothing is focused)
  have been notified focus-out, in order from the old focus upwards, and have their focus
  flag cleared; then the nodes from the target up to but excluding the common ancestor
  have been notified focus-in and have their focus flag set; each of these nodes that
  does not ignore invalidation carries the redraw flag; the focus flag of every other
  node, the tree and the lists are unchanged.
\<close>

theorem focus_set_moves_focus:
  assumes r: "ranked s up dn L" and root: "first (Root s) \<noteq> None"
  shows "(FocusedWidget s = Some h \<longrightarrow> (\<forall>n. gui_widget_focus_set n e s (Some h) = Some s)) \<and>
     (FocusedWidget s \<noteq> Some h \<longrightarrow>
       (\<exists>n s'. gui_widget_focus_set n e s (Some h) = Some s' \<and>
          FocusedWidget s' = Some h \<and> skel s' = skel s \<and>
          events s' = events s @ map (\<lambda>a. (a, GUI_WC_FocusOut, 0)) (focus_out_path s L h)
                               @ map (\<lambda>a. (a, GUI_WC_FocusIn, 0)) (focus_in_path s L h) \<and>
          (\<forall>a \<in> set (focus_out_path s L h). guii_widget_getflag s' a GUI_FLAG_FOCUS = 0) \<and>
          (\<forall>a \<in> set (focus_in_path s L h). guii_widget_getflag s' a GUI_FLAG_FOCUS \<noteq> 0) \<and>
          (\<forall>a. a \<notin> set (focus_out_path s L h) \<union> set (focus_in_path s L h) \<longrightarrow>
               guii_widget_getflag s' a GUI_FLAG_FOCUS = guii_widget_getflag s a GUI_FLAG_FOCUS) \<and>
          (\<forall>a \<in> set (focus_out_path s L h) \<union> set (focus_in_path s L h).
               guii_widget_getflag s a GUI_FLAG_IGNORE_INVALIDATE = 0 \<longrightarrow>
               guii_widget_getflag s' a GUI_FLAG_REDRAW \<noteq> 0)))"
proof (intro conjI impI)
  assume "FocusedWidget s = Some h"
  then show "\<forall>n. gui_widget_focus_set n e s (Some h) = Some s"
    by (simp add: gui_widget_focus_set_def)
next
  assume ne: "FocusedWidget s \<noteq> Some h"
  let ?outs = "focus_out_path s L h"
  let ?ins = "focus_in_path s L h"
  have "5 * L + 3 < 5 * L + 4" by simp
  from focus_set_spec[OF r root ne this, of e] obtain s' where
    run: "gui_widget_focus_set (5 * L + 4) e s (Some h) = Some s'"
    and fw: "FocusedWidget s' = Some h" and sk: "skel s' = skel s"
    and ev: "events s' = events s @ map (\<lambda>a. (a, GUI_WC_FocusOut, 0)) ?outs
                          @ map (\<lambda>a. (a, GUI_WC_FocusIn, 0)) ?ins"
    and fl: "\<And>a. nr (flags (heap s' a)) =
          (if a \<in> set ?ins then nr (flags (heap s a)) OR GUI_FLAG_FOCUS
           else if a \<in> set ?outs then nr (flags (heap s a)) AND NOT GUI_FLAG_FOCUS
           else nr (flags (heap s a)))"
    and rd: "\<And>a. a \<in> set ?outs \<union> set ?ins \<Longrightarrow>
          flags (heap s a) AND GUI_FLAG_IGNORE_INVALIDATE = 0 \<Longrightarrow>
          flags (heap s' a) AND GUI_FLAG_REDRAW \<noteq> 0"
    by blast
  have fr: "GUI_FLAG_FOCUS AND GUI_FLAG_REDRAW = 0" by (simp add: gui_flag_defs)
  have gf: "guii_widget_getflag t a GUI_FLAG_FOCUS = nr (flags (heap t a)) AND GUI_FLAG_FOCUS" for t a
    unfolding guii_widget_getflag_def by (rule and_nr[OF fr])
  have p1: "guii_widget_getflag s' a GUI_FLAG_FOCUS = 0" if "a \<in> set ?outs" for a
    unfolding gf fl using that focus_paths_disjoint[OF that] by (simp add: and_not_same)
  have p2: "guii_widget_getflag s' a GUI_FLAG_FOCUS \<noteq> 0" if "a \<in> set ?ins" for a
    unfolding gf fl using that by (simp add: or_and_focus focus_neq0)
  have p3: "guii_widget_getflag s' a GUI_FLAG_FOCUS = guii_widget_getflag s a GUI_FLAG_FOCUS"
    if "a \<notin> set ?outs \<union> set ?ins" for a
    unfolding gf fl using that by simp
  have p4: "guii_widget_getflag s' a GUI_FLAG_REDRAW \<noteq> 0"
    if "a \<in> set ?outs \<union> set ?ins" "guii_widget_getflag s a GUI_FLAG_IGNORE_INVALIDATE = 0" for a
    using rd[OF that(1)] that(2) by (simp add: guii_widget_getflag_def)
  show "\<exists>n s'. gui_widget_focus_set n e s (Some h) = Some s' \<and>
          FocusedWidget s' = Some h \<and> skel s' = skel s \<and>
          events s' = events s @ map (\<lambda>a. (a, GUI_WC_FocusOut, 0)) (focus_out_path s L h)
                               @ map (\<lambda>a. (a, GUI_WC_FocusIn, 0)) (focus_in_path s L h) \<and>
          (\<forall>a \<in> set (focus_out_path s L h). guii_widget_getflag s' a GUI_FLAG_FOCUS = 0) \<and>
          (\<forall>a \<in> set (focus_in_path s L h). guii_widget_getflag s' a GUI_FLAG_FOCUS \<noteq> 0) \<and>
          (\<forall>a. a \<notin> set (focus_out_path s L h) \<union> set (focus_in_path s L h) \<longrightarrow>
               guii_widget_getflag s' a GUI_FLAG_FOCUS = guii_widget_getflag s a GUI_FLAG_FOCUS) \<and>
          (\<forall>a \<in> set (focus_out_path s L h) \<union> set (focus_in_path s L h).
               guii_widget_getflag s a GUI_FLAG_IGNORE_INVALIDATE = 0 \<longrightarrow>
               guii_widget_getflag s' a GUI_FLAG_REDRAW \<noteq> 0)"
    using run fw sk ev p1 p2 p3 p4 by blast
qed

lemma ranked_focus_state: "ranked focus_state tree_up tree_dn 4"
  using ranked_tree_state ranked_skel[of focus_state tree_state tree_up tree_dn 4]
  by (simp add: focus_state_def)

lemma focus_state_paths:
  "focus_out_path focus_state 4 2 = [3, 1]" "focus_in_path focus_state 4 2 = [2]"
  by (simp_all add: focus_out_path_def focus_in_path_def common_parent_def below_def
      focus_state_def tree_state_def gui_init_def zero_handle_def eval_nat_numeral)

theorem focus_set_moves_focus_witness:
  "ranked focus_state tree_up tree_dn 4 \<and> first (Root focus_state) \<noteq> None \<and>
   FocusedWidget focus_state \<noteq> Some 2 \<and>
   (\<exists>n s'. gui_widget_focus_set n sample_env focus_state (Some 2) = Some s' \<and>
      FocusedWidget s' = Some 2 \<and>
      events s' = [(3, GUI_WC_FocusOut, 0), (1, GUI_WC_FocusOut, 0), (2, GUI_WC_FocusIn, 0)] \<and>
      guii_widget_getflag s' 3 GUI_FLAG_FOCUS = 0 \<and> guii_widget_getflag s' 1 GUI_FLAG_FOCUS = 0 \<and>
      guii_widget_getflag s' 2 GUI_FLAG_FOCUS \<noteq> 0)"
proof -
  have root: "first (Root focus_state) \<noteq> None"
    by (simp add: focus_state_def tree_state_def gui_init_def)
  have ne: "FocusedWidget focus_state \<noteq> Some 2" by (simp add: focus_state_def)
  have ev0: "events focus_state = []" by (simp add: focus_state_def tree_state_def gui_init_def)
  from focus_set_moves_focus[OF ranked_focus_state root, of 2 sample_env] ne
  obtain n s' where
    1: "gui_widget_focus_set n sample_env focus_state (Some 2) = Some s'"
    and 2: "FocusedWidget s' = Some 2"
    and 3: "events s' = events focus_state
              @ map (\<lambda>a. (a, GUI_WC_FocusOut, 0)) (focus_out_path focus_state 4 2)
              @ map (\<lambda>a. (a, GUI_WC_FocusIn, 0)) (focus_in_path focus_state 4 2)"
    and 4: "\<forall>a \<in> set (focus_out_path focus_state 4 2). guii_widget_getflag s' a GUI_FLAG_FOCUS = 0"
    and 5: "\<forall>a \<in> set (focus_in_path focus_state 4 2). guii_widget_getflag s' a GUI_FLAG_FOCUS \<noteq> 0"
    by blast
  have 6: "events s' = [(3, GUI_WC_FocusOut, 0), (1, GUI_WC_FocusOut, 0), (2, GUI_WC_FocusIn, 0)]"
    using 3 by (simp add: focus_state_paths ev0)
  have 7: "guii_widget_getflag s' 3 GUI_FLAG_FOCUS = 0" "guii_widget_getflag s' 1 GUI_FLAG_FOCUS = 0"
    using 4 by (simp_all add: focus_state_paths)
  have 8: "guii_widget_getflag s' 2 GUI_FLAG_FOCUS \<noteq> 0" using 5 by (simp add: focus_state_paths)
  show ?thesis using ranked_focus_state root ne 1 2 6 7 8 by blast
qed

subsection \<open>The removability check\<close>

lemma can_remove_widget_Suc:
  "can_remove_widget (Suc n) e (s\<lparr>events := ev\<rparr>) h =
    (if Some h = desktop s then Some (0, s\<lparr>events := ev\<rparr>)
     else if remove_refused e h then Some (0, s\<lparr>events := ev @ [(h, GUI_WC_Remove, 0)]\<rparr>)
     else if guii_widget_allowchildren s h then
       (case can_remove_children n e (s\<lparr>events := ev @ [(h, GUI_WC_Remove, 0)]\<rparr>)
               (first (root_list (heap s h))) of
          None \<Rightarrow> None
        | Some (ok, s2) \<Rightarrow> if ok then Some (1, s2) else Some (0, s2))
     else Some (1, s\<lparr>events := ev @ [(h, GUI_WC_Remove, 0)]\<rparr>))"
  by (cases "callback e h GUI_WC_Remove 1")
     (auto simp: guii_widget_callback_def remove_refused_def guii_widget_allowchildren_def
       guii_widget_getcoreflag_def gui_linkedlist_widgetgetnext_def Let_def split: option.splits)

lemma can_remove_children_Suc:
  "can_remove_children (Suc n) e (s\<lparr>events := ev\<rparr>) (Some h1) =
    (case can_remove_widget n e (s\<lparr>events := ev\<rparr>) h1 of
       None \<Rightarrow> None
     | Some (r, s1) \<Rightarrow>
         if r = 0 then Some (False, s1)
         else can_remove_children n e s1 (nxt (heap s1 h1)))"
  by (simp split: option.splits)

lemma can_remove_spec:
  assumes r: "ranked s up dn L"
  shows "(\<forall>ev h m. 2 * rk dn (Some h) \<le> n \<longrightarrow> 2 * rk dn (Some h) \<le> m \<longrightarrow>
            (\<exists>ev'. can_remove_widget n e (s\<lparr>events := ev\<rparr>) h
                     = Some (if remove_allowed m e s h then 1 else 0, s\<lparr>events := ev'\<rparr>))) \<and>
         (\<forall>ev p m. 2 * rk dn p + 1 \<le> n \<longrightarrow> 2 * rk dn p + 1 \<le> m \<longrightarrow>
            (\<exists>ev'. can_remove_children n e (s\<lparr>events := ev\<rparr>) p
                     = Some (all_remove_allowed m e s p, s\<lparr>events := ev'\<rparr>)))"
proof (induction n)
  case 0
  then show ?case by simp
next
  case (Suc n)
  then have IHw: "\<And>ev h m. 2 * rk dn (Some h) \<le> n \<Longrightarrow> 2 * rk dn (Some h) \<le> m \<Longrightarrow>
            \<exists>ev'. can_remove_widget n e (s\<lparr>events := ev\<rparr>) h
                     = Some (if remove_allowed m e s h then 1 else 0, s\<lparr>events := ev'\<rparr>)"
    and IHc: "\<And>ev p m. 2 * rk dn p + 1 \<le> n \<Longrightarrow> 2 * rk dn p + 1 \<le> m \<Longrightarrow>
            \<exists>ev'. can_remove_children n e (s\<lparr>events := ev\<rparr>) p
                     = Some (all_remove_allowed m e s p, s\<lparr>events := ev'\<rparr>)"
    by blast+
  have W: "\<exists>ev'. can_remove_widget (Suc n) e (s\<lparr>events := ev\<rparr>) h
                     = Some (if remove_allowed m e s h then 1 else 0, s\<lparr>events := ev'\<rparr>)"
    if n: "2 * rk dn (Some h) \<le> Suc n" and m: "2 * rk dn (Some h) \<le> m" for ev h m
  proof -
    obtain m' where m': "m = Suc m'" using m by (cases m) simp_all
    let ?p = "first (root_list (heap s h))"
    have "rk dn ?p < rk dn (Some h)" by (rule ranked_first[OF r])
    then have b: "2 * rk dn ?p + 1 \<le> n" "2 * rk dn ?p + 1 \<le> m'" using n m m' by simp_all
    from IHc[OF b, of "ev @ [(h, GUI_WC_Remove, 0)]"] obtain ev' where
      c: "can_remove_children n e (s\<lparr>events := ev @ [(h, GUI_WC_Remove, 0)]\<rparr>) ?p
            = Some (all_remove_allowed m' e s ?p, s\<lparr>events := ev'\<rparr>)" by blast
    show ?thesis
    proof (cases "Some h = desktop s")
      case True
      then have "can_remove_widget (Suc n) e (s\<lparr>events := ev\<rparr>) h
          = Some (if remove_allowed m e s h then 1 else 0, s\<lparr>events := ev\<rparr>)"
        unfolding can_remove_widget_Suc m' by simp
      then show ?thesis by blast
    next
      case nd: False
      show ?thesis
      proof (cases "remove_refused e h")
        case True
        then have "can_remove_widget (Suc n) e (s\<lparr>events := ev\<rparr>) h
            = Some (if remove_allowed m e s h then 1 else 0, s\<lparr>events := ev @ [(h, GUI_WC_Remove, 0)]\<rparr>)"
          unfolding can_remove_widget_Suc m' using nd by simp
        then show ?thesis by blast
      next
        case nv: False
        show ?thesis
        proof (cases "guii_widget_allowchildren s h")
          case True
          then have "can_remove_widget (Suc n) e (s\<lparr>events := ev\<rparr>) h
              = Some (if remove_allowed m e s h then 1 else 0, s\<lparr>events := ev'\<rparr>)"
            unfolding can_remove_widget_Suc m' c using nd nv by simp
          then show ?thesis by blast
        next
          case False
          then have "can_remove_widget (Suc n) e (s\<lparr>events := ev\<rparr>) h
              = Some (if remove_allowed m e s h then 1 else 0, s\<lparr>events := ev @ [(h, GUI_WC_Remove, 0)]\<rparr>)"
            unfolding can_remove_widget_Suc m' using nd nv by simp
          then show ?thesis by blast
        qed
      qed
    qed
  qed
  have C: "\<exists>ev'. can_remove_children (Suc n) e (s\<lparr>events := ev\<rparr>) p
                     = Some (all_remove_allowed m e s p, s\<lparr>events := ev'\<rparr>)"
    if n: "2 * rk dn p + 1 \<le> Suc n" and m: "2 * rk dn p + 1 \<le> m" for ev p m
  proof (cases p)
    case None
    obtain m' where m': "m = Suc m'" using m by (cases m) simp_all
    have "can_remove_children (Suc n) e (s\<lparr>events := ev\<rparr>) p
          = Some (all_remove_allowed m e s p, s\<lparr>events := ev\<rparr>)"
      unfolding None m' by simp
    then show ?thesis by blast
  next
    case (Some h1)
    obtain m' where m': "m = Suc m'" using m by (cases m) simp_all
    have b: "2 * rk dn (Some h1) \<le> n" "2 * rk dn (Some h1) \<le> m'" using n m m' Some by simp_all
    from IHw[OF b, of ev] obtain ev1 where
      w: "can_remove_widget n e (s\<lparr>events := ev\<rparr>) h1
            = Some (if remove_allowed m' e s h1 then 1 else 0, s\<lparr>events := ev1\<rparr>)" by blast
    have "rk dn (nxt (heap s h1)) < rk dn (Some h1)" by (rule ranked_nxt[OF r])
    then have b2: "2 * rk dn (nxt (heap s h1)) + 1 \<le> n" "2 * rk dn (nxt (heap s h1)) + 1 \<le> m'"
      using b by simp_all
    from IHc[OF b2, of ev1] obtain ev2 where
      c: "can_remove_children n e (s\<lparr>events := ev1\<rparr>) (nxt (heap s h1))
            = Some (all_remove_allowed m' e s (nxt (heap s h1)), s\<lparr>events := ev2\<rparr>)" by blast
    show ?thesis
    proof (cases "remove_allowed m' e s h1")
      case True
      then have "can_remove_children (Suc n) e (s\<lparr>events := ev\<rparr>) p
          = Some (all_remove_allowed m e s p, s\<lparr>events := ev2\<rparr>)"
        unfolding Some can_remove_children_Suc m' w using c by simp
      then show ?thesis by blast
    next
      case False
      then have "can_remove_children (Suc n) e (s\<lparr>events := ev\<rparr>) p
          = Some (all_remove_allowed m e s p, s\<lparr>events := ev1\<rparr>)"
        unfolding Some can_remove_children_Suc m' w by simp
      then show ?thesis by blast
    qed
  qed
  show ?case using W C by blast
qed

lemma can_remove_widget_spec:
  assumes r: "ranked s up dn L" and n: "2 * L \<le> n" and m: "2 * L \<le> m"
  shows "\<exists>ev'. can_remove_widget n e s h
           = Some (if remove_allowed m e s h then 1 else 0, s\<lparr>events := ev'\<rparr>)"
proof -
  have "rk dn (Some h) \<le> L" by (rule ranked_dn_le[OF r])
  then have "2 * rk dn (Some h) \<le> n" "2 * rk dn (Some h) \<le> m" using n m by simp_all
  then have "\<exists>ev'. can_remove_widget n e (s\<lparr>events := events s\<rparr>) h
           = Some (if remove_allowed m e s h then 1 else 0, s\<lparr>events := ev'\<rparr>)"
    using can_remove_spec[OF r, of n e] by blast
  then show ?thesis by simp
qed

lemma remove_allowed_fuel:
  assumes r: "ranked s up dn L"
    and m: "2 * rk dn (Some h) \<le> m" and m': "2 * rk dn (Some h) \<le> m'"
  shows "remove_allowed m e s h = remove_allowed m' e s h"
proof -
  have a: "2 * rk dn (Some h) \<le> m + m'" using m by simp
  from can_remove_spec[OF r, of "m + m'" e] a m obtain ev1 where
    1: "can_remove_widget (m + m') e (s\<lparr>events := []\<rparr>) h
           = Some (if remove_allowed m e s h then 1 else 0, s\<lparr>events := ev1\<rparr>)" by blast
  from can_remove_spec[OF r, of "m + m'" e] a m' obtain ev2 where
    2: "can_remove_widget (m + m') e (s\<lparr>events := []\<rparr>) h
           = Some (if remove_allowed m' e s h then 1 else 0, s\<lparr>events := ev2\<rparr>)" by blast
  have "(if remove_allowed m e s h then 1 else 0 :: u8) = (if remove_allowed m' e s h then 1 else 0)"
    using 1 2 by simp
  then show ?thesis by (simp split: if_splits)
qed

lemma all_remove_allowed_walk:
  assumes r: "ranked s up dn L"
  shows "rk dn p \<le> k \<Longrightarrow> 2 * rk dn p + 1 \<le> m \<Longrightarrow>
    all_remove_allowed m e s p = (\<forall>c \<in> set (walk (heap s) k p). remove_allowed (2 * L) e s c)"
proof (induction k arbitrary: p m)
  case 0
  then have p: "p = None" by (cases p) simp_all
  obtain m' where "m = Suc m'" using 0(2) by (cases m) simp_all
  then show ?case using p by simp
next
  case (Suc k)
  obtain m' where m': "m = Suc m'" using Suc.prems(2) by (cases m) simp_all
  show ?case
  proof (cases p)
    case None
    then show ?thesis using m' by simp
  next
    case (Some c)
    have lt: "rk dn (nxt (heap s c)) < rk dn (Some c)" by (rule ranked_nxt[OF r])
    have 1: "rk dn (nxt (heap s c)) \<le> k" using lt Suc.prems(1) Some by simp
    have 2: "2 * rk dn (nxt (heap s c)) + 1 \<le> m'" using lt Suc.prems(2) Some m' by simp
    have 3: "2 * rk dn (Some c) \<le> m'" using Suc.prems(2) Some m' by simp
    have 4: "2 * rk dn (Some c) \<le> 2 * L" using ranked_dn_le[OF r, of "Some c"] by simp
    have "remove_allowed m' e s c = remove_allowed (2 * L) e s c" by (rule remove_allowed_fuel[OF r 3 4])
    then show ?thesis unfolding Some m' using Suc.IH[OF 1 2] by simp
  qed
qed

lemma remove_allowed_unfold:
  assumes r: "ranked s up dn L"
  shows "remove_allowed (2 * L) e s h \<longleftrightarrow>
     Some h \<noteq> desktop s \<and> \<not> remove_refused e h \<and>
     (guii_widget_allowchildren s h \<longrightarrow>
        (\<forall>c \<in> set (walk (heap s) L (first (root_list (heap s h)))). remove_allowed (2 * L) e s c))"
proof -
  let ?p = "first (root_list (heap s h))"
  have L: "rk dn (Some h) \<le> L" by (rule ranked_dn_le[OF r])
  then obtain k where k: "2 * L = Suc k" by (cases "2 * L") simp_all
  have lt: "rk dn ?p < rk dn (Some h)" by (rule ranked_first[OF r])
  have 1: "rk dn ?p \<le> L" by (rule ranked_dn_le[OF r])
  have 2: "2 * rk dn ?p + 1 \<le> k" using lt L k by simp
  show ?thesis unfolding k using all_remove_allowed_walk[OF r 1 2, of e] k by simp
qed

subsection \<open>Marking a widget for removal\<close>

lemma focus_set_frame:
  assumes r: "ranked s up dn L" and root: "first (Root s) \<noteq> None" and n: "5 * L + 3 < n"
  shows "\<exists>s'. gui_widget_focus_set n e s hp = Some s' \<and> skel s' = skel s \<and>
           (\<forall>a. flags (heap s' a) AND GUI_FLAG_REMOVE = flags (heap s a) AND GUI_FLAG_REMOVE) \<and>
           Flags s' AND GUI_FLAG_REMOVE = Flags s AND GUI_FLAG_REMOVE"
proof (cases "FocusedWidget s = hp")
  case True
  then show ?thesis by (simp add: gui_widget_focus_set_def)
next
  case False
  show ?thesis
  proof (cases hp)
    case None
    obtain n' where n': "n = Suc n'" using n by (cases n) simp_all
    have "gui_widget_focus_set n e s None = Some (s\<lparr>FocusedWidget := None\<rparr>)"
      using False None unfolding gui_widget_focus_set_def get_common_parentwidget_def n' by simp
    then show ?thesis using None by simp
  next
    case (Some h)
    have ne: "FocusedWidget s \<noteq> Some h" using False Some by simp
    from focus_set_spec[OF r root ne n, of e] obtain s' where
      run: "gui_widget_focus_set n e s (Some h) = Some s'"
      and sk: "skel s' = skel s"
      and fl: "\<And>a. nr (flags (heap s' a)) =
          (if a \<in> set (focus_in_path s L h) then nr (flags (heap s a)) OR GUI_FLAG_FOCUS
           else if a \<in> set (focus_out_path s L h) then nr (flags (heap s a)) AND NOT GUI_FLAG_FOCUS
           else nr (flags (heap s a)))"
      and Fl: "Flags s' = Flags s \<or> Flags s' = Flags s OR GUI_FLAG_REDRAW"
      by blast
    have rr: "GUI_FLAG_REMOVE AND GUI_FLAG_REDRAW = 0" by (simp add: gui_flag_defs)
    have rr': "GUI_FLAG_REDRAW AND GUI_FLAG_REMOVE = 0" by (simp add: gui_flag_defs)
    have fr: "GUI_FLAG_FOCUS AND GUI_FLAG_REMOVE = 0" by (simp add: gui_flag_defs)
    have a: "flags (heap s' a) AND GUI_FLAG_REMOVE = flags (heap s a) AND GUI_FLAG_REMOVE" for a
    proof -
      have "flags (heap s' a) AND GUI_FLAG_REMOVE = nr (flags (heap s' a)) AND GUI_FLAG_REMOVE"
        by (rule and_nr[OF rr])
      also have "\<dots> = nr (flags (heap s a)) AND GUI_FLAG_REMOVE"
        unfolding fl by (simp add: or_other[OF fr] and_not_other[OF fr])
      also have "\<dots> = flags (heap s a) AND GUI_FLAG_REMOVE" by (rule and_nr[OF rr, symmetric])
      finally show ?thesis .
    qed
    have b: "Flags s' AND GUI_FLAG_REMOVE = Flags s AND GUI_FLAG_REMOVE"
      using Fl or_other[OF rr', of "Flags s"] by auto
    show ?thesis using run sk a b Some by blast
  qed
qed

lemma skel_events [simp]: "skel (s\<lparr>events := ev\<rparr>) = skel s"
  by (simp add: skel_def)

lemma or_and_remove: "(x OR GUI_FLAG_REMOVE) AND GUI_FLAG_REMOVE \<noteq> (0 :: u32)"
  by (simp add: gui_flag_defs)

lemma remove_neq0: "GUI_FLAG_REMOVE \<noteq> 0"
  by (simp add: gui_flag_defs)

lemma guii_widget_remove_spec:
  assumes r: "ranked s up dn L" and root: "first (Root s) \<noteq> None" and n: "5 * L + 3 < n"
  shows "\<exists>r s'. guii_widget_remove n e s h = Some (r, s') \<and>
     (remove_allowed (2 * L) e s h \<longrightarrow> r = 1 \<and>
        guii_widget_getflag s' h GUI_FLAG_REMOVE \<noteq> 0 \<and> Flags s' AND GUI_FLAG_REMOVE \<noteq> 0 \<and>
        skel s' = skel s \<and>
        (GUI_CFG_OS s \<longrightarrow> mbox s' \<noteq> [] \<and> last (mbox s') = GUI_SYS_MBOX_TYPE_REMOVE)) \<and>
     (\<not> remove_allowed (2 * L) e s h \<longrightarrow> r = 0 \<and> s' = s\<lparr>events := events s'\<rparr>)"
proof -
  have n2: "2 * L \<le> n" using n by simp
  from can_remove_widget_spec[OF r n2 order_refl, of e h] obtain ev' where
    c: "can_remove_widget n e s h = Some (if remove_allowed (2 * L) e s h then 1 else 0, s\<lparr>events := ev'\<rparr>)"
    by blast
  let ?s1 = "s\<lparr>events := ev'\<rparr>"
  show ?thesis
  proof (cases "remove_allowed (2 * L) e s h")
    case False
    then have "guii_widget_remove n e s h = Some (0, ?s1)"
      unfolding guii_widget_remove_def c by simp
    moreover have "?s1 = s\<lparr>events := events ?s1\<rparr>" by simp
    ultimately show ?thesis using False by blast
  next
    case True
    let ?s2 = "guii_widget_setflag ?s1 h GUI_FLAG_REMOVE"
    let ?s3 = "?s2\<lparr>Flags := Flags ?s2 OR GUI_FLAG_REMOVE\<rparr>"
    have sk3: "skel ?s3 = skel s" by simp
    have r3: "ranked ?s3 up dn L" using ranked_skel[OF sk3] r by simp
    have root3: "first (Root ?s3) \<noteq> None" using root by (simp add: guii_widget_setflag_def)
    have f3: "flags (heap ?s3 h) AND GUI_FLAG_REMOVE \<noteq> 0"
      by (simp add: guii_widget_setflag_def or_and_remove remove_neq0)
    have F3: "Flags ?s3 AND GUI_FLAG_REMOVE \<noteq> 0" by (simp add: or_and_remove remove_neq0)
    have "\<exists>s4. (if guii_widget_isfocused ?s3 h
                    then gui_widget_focus_set n e ?s3 (parent (heap ?s3 h)) else Some ?s3) = Some s4 \<and>
          skel s4 = skel s \<and> flags (heap s4 h) AND GUI_FLAG_REMOVE \<noteq> 0 \<and>
          Flags s4 AND GUI_FLAG_REMOVE \<noteq> 0"
    proof (cases "guii_widget_isfocused ?s3 h")
      case False
      then show ?thesis using sk3 f3 F3 by simp
    next
      case foc: True
      from focus_set_frame[OF r3 root3 n, of e "parent (heap ?s3 h)"] obtain s4 where
        1: "gui_widget_focus_set n e ?s3 (parent (heap ?s3 h)) = Some s4"
        and 2: "skel s4 = skel ?s3"
        and 3: "\<And>a. flags (heap s4 a) AND GUI_FLAG_REMOVE = flags (heap ?s3 a) AND GUI_FLAG_REMOVE"
        and 4: "Flags s4 AND GUI_FLAG_REMOVE = Flags ?s3 AND GUI_FLAG_REMOVE" by blast
      have "skel s4 = skel s" using 2 sk3 by simp
      moreover have "flags (heap s4 h) AND GUI_FLAG_REMOVE \<noteq> 0" using 3[of h] f3 by simp
      moreover have "Flags s4 AND GUI_FLAG_REMOVE \<noteq> 0" using 4 F3 by simp
      ultimately show ?thesis using foc 1 by simp
    qed
    then obtain s4 where
      A: "(if guii_widget_isfocused ?s3 h
                    then gui_widget_focus_set n e ?s3 (parent (heap ?s3 h)) else Some ?s3) = Some s4"
      and sk4: "skel s4 = skel s" and f4: "flags (heap s4 h) AND GUI_FLAG_REMOVE \<noteq> 0"
      and F4: "Flags s4 AND GUI_FLAG_REMOVE \<noteq> 0" by blast
    let ?s5 = "if GUI_CFG_OS s4 then mbox_putnow s4 GUI_SYS_MBOX_TYPE_REMOVE else s4"
    have run: "guii_widget_remove n e s h = Some (1, ?s5)"
      unfolding guii_widget_remove_def c using True A by (simp add: Let_def)
    have os: "GUI_CFG_OS s4 = GUI_CFG_OS s" by (rule skel_eqD(10)[OF sk4])
    have "guii_widget_getflag ?s5 h GUI_FLAG_REMOVE \<noteq> 0"
      using f4 by (simp add: guii_widget_getflag_def mbox_putnow_def)
    moreover have "Flags ?s5 AND GUI_FLAG_REMOVE \<noteq> 0" using F4 by (simp add: mbox_putnow_def)
    moreover have "skel ?s5 = skel s" using sk4 by simp
    moreover have "GUI_CFG_OS s \<longrightarrow> mbox ?s5 \<noteq> [] \<and> last (mbox ?s5) = GUI_SYS_MBOX_TYPE_REMOVE"
      using os by (simp add: mbox_putnow_def)
    ultimately show ?thesis using run True by blast
  qed
qed

text \<open>
  C4. Removal is specified to fail when the widget's callback vetoes. A plain widget
  (no children, not the desktop, not focused) that vetoes the documented way, by answering
  \<open>GUI_WC_CanRemove\<close> with 0, is removed all the same: \<open>guii_widget_remove\<close> returns 1
  and sets the being-removed flag on the widget and on the GUI. The only command the
  widget was sent is \<open>GUI_WC_Remove\<close>; the query \<open>GUI_WC_CanRemove\<close> is never sent.
\<close>

theorem remove_ignores_documented_veto:
  "vetoes veto_env 2 \<and>
   (\<exists>s'. guii_widget_remove (Suc n) veto_env tree_state 2 = Some (1, s') \<and>
      guii_widget_getflag s' 2 GUI_FLAG_REMOVE \<noteq> 0 \<and> Flags s' AND GUI_FLAG_REMOVE \<noteq> 0 \<and>
      events s' = [(2, GUI_WC_Remove, 0)])"
proof -
  have v: "vetoes veto_env 2" by (simp add: vetoes_def veto_env_def)
  have c: "can_remove_widget (Suc n) veto_env tree_state 2
             = Some (1, tree_state\<lparr>events := [(2, GUI_WC_Remove, 0)]\<rparr>)"
    by (simp add: guii_widget_callback_def veto_env_def guii_widget_allowchildren_def
        guii_widget_getcoreflag_def)
       (simp add: tree_state_def gui_init_def zero_handle_def)
  let ?s1 = "tree_state\<lparr>events := [(2, GUI_WC_Remove, 0)]\<rparr>"
  let ?s2 = "guii_widget_setflag ?s1 2 GUI_FLAG_REMOVE"
  let ?s3 = "?s2\<lparr>Flags := Flags ?s2 OR GUI_FLAG_REMOVE\<rparr>"
  have nf: "\<not> guii_widget_isfocused ?s3 2"
    by (simp add: guii_widget_isfocused_def guii_widget_getflag_def guii_widget_setflag_def
        tree_state_def gui_init_def zero_handle_def gui_flag_defs)
  have os: "\<not> GUI_CFG_OS ?s3"
    by (simp add: guii_widget_setflag_def tree_state_def gui_init_def)
  have run: "guii_widget_remove (Suc n) veto_env tree_state 2 = Some (1, ?s3)"
    unfolding guii_widget_remove_def c using nf os by (simp add: Let_def)
  have f: "guii_widget_getflag ?s3 2 GUI_FLAG_REMOVE \<noteq> 0"
    by (simp add: guii_widget_getflag_def guii_widget_setflag_def or_and_remove remove_neq0)
  have F: "Flags ?s3 AND GUI_FLAG_REMOVE \<noteq> 0" by (simp add: or_and_remove remove_neq0)
  have e: "events ?s3 = [(2, GUI_WC_Remove, 0)]" by (simp add: guii_widget_setflag_def)
  show ?thesis using v run f F e by blast
qed

subsection \<open>Dialog dismissal returns 0\<close>

lemma can_remove_prefix:
  assumes r: "ranked s up dn L"
  shows "(\<forall>ev h m. 2 * rk dn (Some h) \<le> n \<longrightarrow> 2 * rk dn (Some h) \<le> m \<longrightarrow>
            (\<exists>evs. can_remove_widget n e (s\<lparr>events := ev\<rparr>) h
                     = Some (if remove_allowed m e s h then 1 else 0, s\<lparr>events := ev @ evs\<rparr>))) \<and>
         (\<forall>ev p m. 2 * rk dn p + 1 \<le> n \<longrightarrow> 2 * rk dn p + 1 \<le> m \<longrightarrow>
            (\<exists>evs. can_remove_children n e (s\<lparr>events := ev\<rparr>) p
                     = Some (all_remove_allowed m e s p, s\<lparr>events := ev @ evs\<rparr>)))"
proof (induction n)
  case 0
  then show ?case by simp
next
  case (Suc n)
  then have IHw: "\<And>ev h m. 2 * rk dn (Some h) \<le> n \<Longrightarrow> 2 * rk dn (Some h) \<le> m \<Longrightarrow>
            \<exists>evs. can_remove_widget n e (s\<lparr>events := ev\<rparr>) h
                     = Some (if remove_allowed m e s h then 1 else 0, s\<lparr>events := ev @ evs\<rparr>)"
    and IHc: "\<And>ev p m. 2 * rk dn p + 1 \<le> n \<Longrightarrow> 2 * rk dn p + 1 \<le> m \<Longrightarrow>
            \<exists>evs. can_remove_children n e (s\<lparr>events := ev\<rparr>) p
                     = Some (all_remove_allowed m e s p, s\<lparr>events := ev @ evs\<rparr>)"
    by blast+
  have W: "\<exists>evs. can_remove_widget (Suc n) e (s\<lparr>events := ev\<rparr>) h
                     = Some (if remove_allowed m e s h then 1 else 0, s\<lparr>events := ev @ evs\<rparr>)"
    if n: "2 * rk dn (Some h) \<le> Suc n" and m: "2 * rk dn (Some h) \<le> m" for ev h m
  proof -
    obtain m' where m': "m = Suc m'" using m by (cases m) simp_all
    let ?p = "first (root_list (heap s h))"
    have "rk dn ?p < rk dn (Some h)" by (rule ranked_first[OF r])
    then have b: "2 * rk dn ?p + 1 \<le> n" "2 * rk dn ?p + 1 \<le> m'" using n m m' by simp_all
    from IHc[OF b, of "ev @ [(h, GUI_WC_Remove, 0)]"] obtain evs1 where
      c: "can_remove_children n e (s\<lparr>events := ev @ [(h, GUI_WC_Remove, 0)]\<rparr>) ?p
            = Some (all_remove_allowed m' e s ?p, s\<lparr>events := (ev @ [(h, GUI_WC_Remove, 0)]) @ evs1\<rparr>)" by blast
    show ?thesis
    proof (cases "Some h = desktop s")
      case True
      then have "can_remove_widget (Suc n) e (s\<lparr>events := ev\<rparr>) h
          = Some (if remove_allowed m e s h then 1 else 0, s\<lparr>events := ev @ []\<rparr>)"
        unfolding can_remove_widget_Suc m' by simp
      then show ?thesis by blast
    next
      case nd: False
      show ?thesis
      proof (cases "remove_refused e h")
        case True
        then have "can_remove_widget (Suc n) e (s\<lparr>events := ev\<rparr>) h
            = Some (if remove_allowed m e s h then 1 else 0, s\<lparr>events := ev @ [(h, GUI_WC_Remove, 0)]\<rparr>)"
          unfolding can_remove_widget_Suc m' using nd by simp
        then show ?thesis by blast
      next
        case nv: False
        show ?thesis
        proof (cases "guii_widget_allowchildren s h")
          case True
          then have "can_remove_widget (Suc n) e (s\<lparr>events := ev\<rparr>) h
              = Some (if remove_allowed m e s h then 1 else 0,
                      s\<lparr>events := ev @ ((h, GUI_WC_Remove, 0) # evs1)\<rparr>)"
            unfolding can_remove_widget_Suc m' c using nd nv by simp
          then show ?thesis by blast
        next
          case False
          then have "can_remove_widget (Suc n) e (s\<lparr>events := ev\<rparr>) h
              = Some (if remove_allowed m e s h then 1 else 0, s\<lparr>events := ev @ [(h, GUI_WC_Remove, 0)]\<rparr>)"
            unfolding can_remove_widget_Suc m' using nd nv by simp
          then show ?thesis by blast
        qed
      qed
    qed
  qed
  have C: "\<exists>evs. can_remove_children (Suc n) e (s\<lparr>events := ev\<rparr>) p
                     = Some (all_remove_allowed m e s p, s\<lparr>events := ev @ evs\<rparr>)"
    if n: "2 * rk dn p + 1 \<le> Suc n" and m: "2 * rk dn p + 1 \<le> m" for ev p m
  proof (cases p)
    case None
    obtain m' where m': "m = Suc m'" using m by (cases m) simp_all
    have "can_remove_children (Suc n) e (s\<lparr>events := ev\<rparr>) p
          = Some (all_remove_allowed m e s p, s\<lparr>events := ev @ []\<rparr>)"
      unfolding None m' by simp
    then show ?thesis by blast
  next
    case (Some h1)
    obtain m' where m': "m = Suc m'" using m by (cases m) simp_all
    have b: "2 * rk dn (Some h1) \<le> n" "2 * rk dn (Some h1) \<le> m'" using n m m' Some by simp_all
    from IHw[OF b, of ev] obtain evs1 where
      w: "can_remove_widget n e (s\<lparr>events := ev\<rparr>) h1
            = Some (if remove_allowed m' e s h1 then 1 else 0, s\<lparr>events := ev @ evs1\<rparr>)" by blast
    have "rk dn (nxt (heap s h1)) < rk dn (Some h1)" by (rule ranked_nxt[OF r])
    then have b2: "2 * rk dn (nxt (heap s h1)) + 1 \<le> n" "2 * rk dn (nxt (heap s h1)) + 1 \<le> m'"
      using b by simp_all
    from IHc[OF b2, of "ev @ evs1"] obtain evs2 where
      c: "can_remove_children n e (s\<lparr>events := ev @ evs1\<rparr>) (nxt (heap s h1))
            = Some (all_remove_allowed m' e s (nxt (heap s h1)), s\<lparr>events := (ev @ evs1) @ evs2\<rparr>)" by blast
    show ?thesis
    proof (cases "remove_allowed m' e s h1")
      case True
      then have "can_remove_children (Suc n) e (s\<lparr>events := ev\<rparr>) p
          = Some (all_remove_allowed m e s p, s\<lparr>events := ev @ (evs1 @ evs2)\<rparr>)"
        unfolding Some can_remove_children_Suc m' w using c by simp
      then show ?thesis by blast
    next
      case False
      then have "can_remove_children (Suc n) e (s\<lparr>events := ev\<rparr>) p
          = Some (all_remove_allowed m e s p, s\<lparr>events := ev @ evs1\<rparr>)"
        unfolding Some can_remove_children_Suc m' w by simp
      then show ?thesis by blast
    qed
  qed
  show ?case using W C by blast
qed

lemma can_remove_widget_prefix:
  assumes r: "ranked s up dn L" and n: "2 * L \<le> n" and m: "2 * L \<le> m"
  shows "\<exists>evs. can_remove_widget n e s h
           = Some (if remove_allowed m e s h then 1 else 0, s\<lparr>events := events s @ evs\<rparr>)"
proof -
  have "rk dn (Some h) \<le> L" by (rule ranked_dn_le[OF r])
  then have "2 * rk dn (Some h) \<le> n" "2 * rk dn (Some h) \<le> m" using n m by simp_all
  then have "\<exists>evs. can_remove_widget n e (s\<lparr>events := events s\<rparr>) h
           = Some (if remove_allowed m e s h then 1 else 0, s\<lparr>events := events s @ evs\<rparr>)"
    using can_remove_prefix[OF r, of n e] by blast
  then show ?thesis by simp
qed

lemma focus_set_events:
  assumes r: "ranked s up dn L" and root: "first (Root s) \<noteq> None" and n: "5 * L + 3 < n"
    and run: "gui_widget_focus_set n e s hp = Some s'"
  shows "set (events s) \<subseteq> set (events s')"
proof (cases "FocusedWidget s = hp")
  case True
  then show ?thesis using run by (simp add: gui_widget_focus_set_def)
next
  case False
  show ?thesis
  proof (cases hp)
    case None
    obtain n' where n': "n = Suc n'" using n by (cases n) simp_all
    have "gui_widget_focus_set n e s None = Some (s\<lparr>FocusedWidget := None\<rparr>)"
      using False None unfolding gui_widget_focus_set_def get_common_parentwidget_def n' by simp
    then show ?thesis using None run by auto
  next
    case (Some h)
    have ne: "FocusedWidget s \<noteq> Some h" using False Some by simp
    from focus_set_spec[OF r root ne n, of e] obtain s'' where
      1: "gui_widget_focus_set n e s (Some h) = Some s''"
      and 2: "events s'' = events s @ map (\<lambda>a. (a, GUI_WC_FocusOut, 0)) (focus_out_path s L h)
                          @ map (\<lambda>a. (a, GUI_WC_FocusIn, 0)) (focus_in_path s L h)"
      by blast
    have "s'' = s'" using 1 run Some by simp
    then show ?thesis using 2 by auto
  qed
qed

lemma guii_widget_remove_events:
  assumes r: "ranked s up dn L" and root: "first (Root s) \<noteq> None" and n: "5 * L + 3 < n"
    and run: "guii_widget_remove n e s h = Some (res, s')"
  shows "set (events s) \<subseteq> set (events s')"
proof -
  from run obtain r1 s1 where c: "can_remove_widget n e s h = Some (r1, s1)"
    unfolding guii_widget_remove_def by (auto split: option.splits)
  have n2: "2 * L \<le> n" using n by simp
  from can_remove_widget_prefix[OF r n2 order_refl, of e h] c obtain evs where
    s1: "s1 = s\<lparr>events := events s @ evs\<rparr>" by auto
  have e1: "set (events s) \<subseteq> set (events s1)" unfolding s1 by simp
  show ?thesis
  proof (cases "r1 = 0")
    case True
    then have "s' = s1" using run unfolding guii_widget_remove_def c by simp
    then show ?thesis using e1 by simp
  next
    case False
    let ?s2 = "guii_widget_setflag s1 h GUI_FLAG_REMOVE"
    let ?s3 = "?s2\<lparr>Flags := Flags ?s2 OR GUI_FLAG_REMOVE\<rparr>"
    from run False obtain s4 where
      A: "(if guii_widget_isfocused ?s3 h
             then gui_widget_focus_set n e ?s3 (parent (heap ?s3 h)) else Some ?s3) = Some s4"
      and B: "s' = (if GUI_CFG_OS s4 then mbox_putnow s4 GUI_SYS_MBOX_TYPE_REMOVE else s4)"
      unfolding guii_widget_remove_def c by (auto simp: Let_def split: option.splits)
    have sk3: "skel ?s3 = skel s" unfolding s1 by simp
    have r3: "ranked ?s3 up dn L" using ranked_skel[OF sk3] r by simp
    have root3: "first (Root ?s3) \<noteq> None" using root unfolding s1 by (simp add: guii_widget_setflag_def)
    have e3: "events ?s3 = events s1" by (simp add: guii_widget_setflag_def)
    have e4: "set (events ?s3) \<subseteq> set (events s4)"
    proof (cases "guii_widget_isfocused ?s3 h")
      case True
      then have "gui_widget_focus_set n e ?s3 (parent (heap ?s3 h)) = Some s4" using A by simp
      then show ?thesis by (rule focus_set_events[OF r3 root3 n])
    next
      case False
      then show ?thesis using A by auto
    qed
    have "events s' = events s4" unfolding B by (simp add: mbox_putnow_def)
    then show ?thesis using e1 e3 e4 by simp
  qed
qed

lemma ranked_heap: "heap s' = heap s \<Longrightarrow> ranked s' up dn L = ranked s up dn L"
  by (simp add: ranked_def)

lemma remove_allowed_heap_aux:
  assumes "heap s' = heap s" "desktop s' = desktop s"
  shows "remove_allowed m e s' h = remove_allowed m e s h \<and>
         all_remove_allowed m e s' p = all_remove_allowed m e s p"
proof (induction m arbitrary: h p)
  case 0
  then show ?case by simp
next
  case (Suc m)
  have a: "guii_widget_allowchildren s' h = guii_widget_allowchildren s h"
    by (simp add: guii_widget_allowchildren_def guii_widget_getcoreflag_def assms)
  have "remove_allowed (Suc m) e s' h = remove_allowed (Suc m) e s h"
    using Suc[of h "first (root_list (heap s h))"] by (simp add: a assms)
  moreover have "all_remove_allowed (Suc m) e s' p = all_remove_allowed (Suc m) e s p"
  proof (cases p)
    case None
    then show ?thesis by simp
  next
    case (Some c)
    then show ?thesis using Suc[of c "nxt (heap s c)"] by (simp add: assms)
  qed
  ultimately show ?case by blast
qed

lemma remove_allowed_heap:
  assumes "heap s' = heap s" "desktop s' = desktop s"
  shows "remove_allowed m e s' h = remove_allowed m e s h"
  using remove_allowed_heap_aux[OF assms] by blast

lemma dismiss_pre_fields:
  "heap (dismiss_pre e s h st l) = heap s"
  "desktop (dismiss_pre e s h st l) = desktop s"
  "Root (dismiss_pre e s h st l) = Root s"
  "events (dismiss_pre e s h st l) = events s @ [(h, GUI_WC_OnDismiss, st)]"
  by (simp_all add: dismiss_pre_def Let_def guii_widget_callback_def remove_from_active_dialogs_def
      split: prod.splits)

lemma dismiss_pre_sem:
  assumes "GUI_CFG_OS s \<and> ib (dheap s l) \<noteq> 0 \<and> sem (dheap s l) \<noteq> None"
  shows "status (dheap (dismiss_pre e s h st l) l) = st"
    "sem (dheap (dismiss_pre e s h st l) l) = Some True"
    "dmem (dismiss_pre e s h st l) = dmem s"
  using assms by (simp_all add: dismiss_pre_def Let_def guii_widget_callback_def)

lemma dismiss_pre_free:
  assumes "\<not> (GUI_CFG_OS s \<and> ib (dheap s l) \<noteq> 0 \<and> sem (dheap s l) \<noteq> None)"
  shows "l \<notin> dmem (dismiss_pre e s h st l)"
  using assms
  by (auto simp: dismiss_pre_def Let_def guii_widget_callback_def remove_from_active_dialogs_def
      split: prod.splits)

lemma dismiss_found:
  assumes "get_dialog n s h = Some (Some l)"
  shows "gui_dialog_dismiss n e s h st =
    (case guii_widget_remove n e (dismiss_pre e s h st l) h of
       None \<Rightarrow> None | Some (r, s4) \<Rightarrow> Some (0, s4))"
  unfolding gui_dialog_dismiss_def dismiss_pre_def assms by (simp add: Let_def)

lemma dismiss_result_zero:
  "gui_dialog_dismiss n e s h st = Some (r, s') \<Longrightarrow> r = 0"
  unfolding gui_dialog_dismiss_def by (auto simp: Let_def split: option.splits prod.splits)

text \<open>
  C10. \<open>gui_dialog_dismiss\<close> never returns anything but 0. In a well-formed tree with a
  well-formed registry it does return, and when the handle is registered the dismissal
  has been carried out by then: the on-dismiss notification was sent with the status, the
  status is stored and the semaphore released (blocking dialog) or the entry is freed
  (non-blocking dialog), and the widget carries the being-removed flag whenever the
  removal check lets it go. The result is 0 all the same.
\<close>

theorem dismiss_returns_zero:
  assumes r: "ranked s up dn L" and root: "first (Root s) \<noteq> None"
    and d: "dll (ddlist s) (dheap s) ls"
  shows "(\<forall>n r s'. gui_dialog_dismiss n e s h st = Some (r, s') \<longrightarrow> r = 0) \<and>
     (\<exists>n s'. gui_dialog_dismiss n e s h st = Some (0, s') \<and>
        (\<forall>l. find (dialog_entry_of s h) ls = Some l \<longrightarrow>
           (h, GUI_WC_OnDismiss, st) \<in> set (events s') \<and>
           (if GUI_CFG_OS s \<and> ib (dheap s l) \<noteq> 0 \<and> sem (dheap s l) \<noteq> None
            then status (dheap s' l) = st \<and> sem (dheap s' l) = Some True
            else l \<notin> dmem s') \<and>
           (remove_allowed (2 * L) e s h \<longrightarrow> guii_widget_getflag s' h GUI_FLAG_REMOVE \<noteq> 0)))"
proof (intro conjI)
  show "\<forall>n r s'. gui_dialog_dismiss n e s h st = Some (r, s') \<longrightarrow> r = 0"
    using dismiss_result_zero by blast
next
  let ?n = "5 * L + 4 + length ls"
  have ln: "length ls < ?n" by simp
  have gd: "get_dialog ?n s h = Some (find (dialog_entry_of s h) ls)"
    by (rule get_dialog_find[OF d ln])
  show "\<exists>n s'. gui_dialog_dismiss n e s h st = Some (0, s') \<and>
        (\<forall>l. find (dialog_entry_of s h) ls = Some l \<longrightarrow>
           (h, GUI_WC_OnDismiss, st) \<in> set (events s') \<and>
           (if GUI_CFG_OS s \<and> ib (dheap s l) \<noteq> 0 \<and> sem (dheap s l) \<noteq> None
            then status (dheap s' l) = st \<and> sem (dheap s' l) = Some True
            else l \<notin> dmem s') \<and>
           (remove_allowed (2 * L) e s h \<longrightarrow> guii_widget_getflag s' h GUI_FLAG_REMOVE \<noteq> 0))"
  proof (cases "find (dialog_entry_of s h) ls")
    case None
    then have "gui_dialog_dismiss ?n e s h st = Some (0, s)"
      using gd by (simp add: gui_dialog_dismiss_def)
    then show ?thesis using None by auto
  next
    case (Some l)
    let ?s3 = "dismiss_pre e s h st l"
    have r3: "ranked ?s3 up dn L" using ranked_heap[OF dismiss_pre_fields(1)] r by simp
    have root3: "first (Root ?s3) \<noteq> None" using root by (simp add: dismiss_pre_fields)
    have n: "5 * L + 3 < ?n" by simp
    from guii_widget_remove_spec[OF r3 root3 n, of e h] obtain r4 s4 where
      run: "guii_widget_remove ?n e ?s3 h = Some (r4, s4)"
      and ok: "remove_allowed (2 * L) e ?s3 h \<Longrightarrow>
                 guii_widget_getflag s4 h GUI_FLAG_REMOVE \<noteq> 0 \<and> skel s4 = skel ?s3"
      and no: "\<not> remove_allowed (2 * L) e ?s3 h \<Longrightarrow> s4 = ?s3\<lparr>events := events s4\<rparr>"
      by blast
    have sk: "skel s4 = skel ?s3"
    proof (cases "remove_allowed (2 * L) e ?s3 h")
      case True
      then show ?thesis using ok by simp
    next
      case False
      have "skel (?s3\<lparr>events := events s4\<rparr>) = skel ?s3" by (rule skel_events)
      then show ?thesis using no[OF False] by simp
    qed
    have dh: "dheap s4 = dheap ?s3" by (rule skel_eqD(13)[OF sk])
    have dm: "dmem s4 = dmem ?s3" by (rule skel_eqD(14)[OF sk])
    have ev: "set (events ?s3) \<subseteq> set (events s4)"
      by (rule guii_widget_remove_events[OF r3 root3 n run])
    have al: "remove_allowed (2 * L) e ?s3 h = remove_allowed (2 * L) e s h"
      by (rule remove_allowed_heap[OF dismiss_pre_fields(1) dismiss_pre_fields(2)])
    have dis: "gui_dialog_dismiss ?n e s h st = Some (0, s4)"
      using dismiss_found[of ?n s h l e st] gd Some run by simp
    have p1: "(h, GUI_WC_OnDismiss, st) \<in> set (events s4)"
      using ev by (auto simp: dismiss_pre_fields)
    have p2: "if GUI_CFG_OS s \<and> ib (dheap s l) \<noteq> 0 \<and> sem (dheap s l) \<noteq> None
            then status (dheap s4 l) = st \<and> sem (dheap s4 l) = Some True
            else l \<notin> dmem s4"
    proof (cases "GUI_CFG_OS s \<and> ib (dheap s l) \<noteq> 0 \<and> sem (dheap s l) \<noteq> None")
      case True
      have "status (dheap s4 l) = st \<and> sem (dheap s4 l) = Some True"
        using dismiss_pre_sem[OF True, of e h st] dh by simp
      then show ?thesis unfolding if_P[OF True] .
    next
      case False
      have "l \<notin> dmem s4" using dismiss_pre_free[OF False, of e h st] dm by simp
      then show ?thesis unfolding if_not_P[OF False] .
    qed
    have p3: "remove_allowed (2 * L) e s h \<longrightarrow> guii_widget_getflag s4 h GUI_FLAG_REMOVE \<noteq> 0"
      using ok al by simp
    have all: "\<forall>la. find (dialog_entry_of s h) ls = Some la \<longrightarrow>
           (h, GUI_WC_OnDismiss, st) \<in> set (events s4) \<and>
           (if GUI_CFG_OS s \<and> ib (dheap s la) \<noteq> 0 \<and> sem (dheap s la) \<noteq> None
            then status (dheap s4 la) = st \<and> sem (dheap s4 la) = Some True
            else la \<notin> dmem s4) \<and>
           (remove_allowed (2 * L) e s h \<longrightarrow> guii_widget_getflag s4 h GUI_FLAG_REMOVE \<noteq> 0)"
    proof (intro allI impI)
      fix la assume "find (dialog_entry_of s h) ls = Some la"
      then have "la = l" using Some by simp
      then show "(h, GUI_WC_OnDismiss, st) \<in> set (events s4) \<and>
           (if GUI_CFG_OS s \<and> ib (dheap s la) \<noteq> 0 \<and> sem (dheap s la) \<noteq> None
            then status (dheap s4 la) = st \<and> sem (dheap s4 la) = Some True
            else la \<notin> dmem s4) \<and>
           (remove_allowed (2 * L) e s h \<longrightarrow> guii_widget_getflag s4 h GUI_FLAG_REMOVE \<noteq> 0)"
        using p1 p2 p3 by blast
    qed
    show ?thesis by (rule exI[of _ ?n], rule exI[of _ s4]) (rule conjI[OF dis all])
  qed
qed

lemma ranked_dialog_state: "ranked dialog_state tree_up tree_dn 4"
  using ranked_tree_state ranked_heap[of dialog_state tree_state tree_up tree_dn 4]
  by (simp add: dialog_state_def)

theorem dismiss_returns_zero_witness:
  "ranked dialog_state tree_up tree_dn 4 \<and> first (Root dialog_state) \<noteq> None \<and>
   dll (ddlist dialog_state) (dheap dialog_state) [7] \<and>
   find (dialog_entry_of dialog_state 2) [7] = Some 7 \<and>
   remove_allowed (2 * 4) sample_env dialog_state 2 \<and>
   (\<exists>n s'. gui_dialog_dismiss n sample_env dialog_state 2 5 = Some (0, s') \<and>
      (2, GUI_WC_OnDismiss, 5) \<in> set (events s') \<and> 7 \<notin> dmem s' \<and>
      guii_widget_getflag s' 2 GUI_FLAG_REMOVE \<noteq> 0)"
proof -
  have root: "first (Root dialog_state) \<noteq> None"
    by (simp add: dialog_state_def tree_state_def gui_init_def)
  have f: "find (dialog_entry_of dialog_state 2) [7] = Some 7"
    by (simp add: dialog_entry_of_def dialog_state_def tree_state_def gui_init_def
        zero_dialog_def zero_handle_def)
  have os: "\<not> (GUI_CFG_OS dialog_state \<and> ib (dheap dialog_state 7) \<noteq> 0 \<and> sem (dheap dialog_state 7) \<noteq> None)"
    by (simp add: dialog_state_def tree_state_def gui_init_def)
  have nv: "\<not> remove_refused sample_env h" for h by (simp add: remove_refused_def sample_env_def)
  have rm: "remove_allowed (2 * 4) sample_env dialog_state 2"
    by (simp add: eval_nat_numeral nv)
       (simp add: dialog_state_def tree_state_def gui_init_def zero_handle_def
         guii_widget_allowchildren_def guii_widget_getcoreflag_def)
  from dismiss_returns_zero[OF ranked_dialog_state root dll_dialog_state, of sample_env 2 5]
  obtain n s' where
    1: "gui_dialog_dismiss n sample_env dialog_state 2 5 = Some (0, s')"
    and 2: "\<forall>l. find (dialog_entry_of dialog_state 2) [7] = Some l \<longrightarrow>
           (2, GUI_WC_OnDismiss, 5) \<in> set (events s') \<and>
           (if GUI_CFG_OS dialog_state \<and> ib (dheap dialog_state l) \<noteq> 0 \<and> sem (dheap dialog_state l) \<noteq> None
            then status (dheap s' l) = 5 \<and> sem (dheap s' l) = Some True
            else l \<notin> dmem s') \<and>
           (remove_allowed (2 * 4) sample_env dialog_state 2 \<longrightarrow>
              guii_widget_getflag s' 2 GUI_FLAG_REMOVE \<noteq> 0)"
    by blast
  from 2 f have 3: "(2, GUI_WC_OnDismiss, 5) \<in> set (events s')"
    and 4: "if GUI_CFG_OS dialog_state \<and> ib (dheap dialog_state 7) \<noteq> 0 \<and> sem (dheap dialog_state 7) \<noteq> None
            then status (dheap s' 7) = 5 \<and> sem (dheap s' 7) = Some True
            else 7 \<notin> dmem s'"
    and 5: "remove_allowed (2 * 4) sample_env dialog_state 2 \<longrightarrow>
              guii_widget_getflag s' 2 GUI_FLAG_REMOVE \<noteq> 0"
    by blast+
  have 6: "7 \<notin> dmem s'" using 4 unfolding if_not_P[OF os] .
  have 7: "guii_widget_getflag s' 2 GUI_FLAG_REMOVE \<noteq> 0" using 5 rm by blast
  show ?thesis using ranked_dialog_state root dll_dialog_state f rm 1 3 6 7 by blast
qed

subsection \<open>Failure paths of creation\<close>




end
